theory Spec2Isabelle
  imports Complex_Main "HOL-Library.Log_Nat"
begin

section \<open>The DataRoom component (src/components/DataRoom.tsx)\<close>

text \<open>
  The component keeps five state cells (\<open>files\<close>, \<open>uploadProgress\<close>, \<open>loading\<close>,
  \<open>error\<close>, \<open>selectedFolder\<close>) and talks to two collaborators that are not part of the
  repository: the identity provider, which hands an \<open>identityId\<close> to every path resolver,
  and the object store behind \<open>uploadData\<close> and \<open>list\<close>.

  The handlers are asynchronous. Each one is split here at its \<open>await\<close>: the part that runs
  when the handler is called is a function on the state, and each continuation is the
  reaction to an event that the environment delivers later (a put succeeded, a promise
  rejected, a progress callback, a listing arrived, the timer fired); what the user
  does (select files, choose a folder, press Refresh) is an event as well. An event is
  delivered only when the collaborators can produce it: a promise settles once, and
  progress is reported only for a put that is still running. Byte counts and clock
  readings are natural numbers, strings are \<open>string\<close>; the two places that compute
  with JavaScript numbers (\<open>Math.round\<close> of a quotient, \<open>Math.floor\<close> of a quotient of
  logarithms) are taken on the exact real values, which can differ from the
  double-precision result by one unit where the exact value sits on a rounding tie.
  \<open>handleDeleteFile\<close> is left out: it touches \<open>error\<close>, and through \<open>loadFiles\<close> the
  listing, and nothing of the uploads.
\<close>

subsection \<open>Data\<close>

record FileItem =
  path :: string
  size_bytes :: "nat option"
  lastModified :: "nat option"
  eTag :: "string option"

record UploadProgress =
  fileName :: string
  progress :: nat
  isUploading :: bool

text \<open>
  A promise of a collaborator call. While pending it remembers the path that its resolver
  produced: \<open>Pending (Some p)\<close> is a call that went to the store under path \<open>p\<close>,
  \<open>Pending None\<close> is a call whose path resolver threw \<open>User not authenticated\<close>, so that
  nothing was sent and only the rejection is still to be delivered.
\<close>

datatype promise = Pending "string option" | Fulfilled | Rejected

text \<open>
  One call of \<open>handleFileSelect\<close>: the result promises of its \<open>uploadData\<close> calls,
  whether \<open>Promise.all\<close> over them has settled, and the \<open>selectedFolder\<close> that the
  handler closed over.
\<close>

record batch =
  uploads :: "promise list"
  batchSettled :: bool
  capturedFolder :: string

record DataRoom =
  files :: "FileItem list"
  uploadProgress :: "UploadProgress list"
  loading :: bool
  error :: "string option"
  selectedFolder :: string
  identityId :: "string option"
  batches :: "batch list"
  putLog :: "string list"
  listings :: "promise list"
  listLog :: "string list"
  timers :: nat

text \<open>
  Beyond the five state cells: \<open>identityId\<close> is what the identity provider supplies;
  \<open>batches\<close> are all calls of \<open>handleFileSelect\<close> so far, in order, each with its own
  promises, while the progress list is the one cell they all write to; \<open>putLog\<close> and
  \<open>listLog\<close> record the paths of the puts and the prefixes of the listings that reached
  the store; \<open>listings\<close> are the promises of the \<open>list\<close> calls; \<open>timers\<close> counts the
  pending timers of \<open>setTimeout\<close>, none of which is ever cancelled.
\<close>

definition uploadsOf :: "DataRoom \<Rightarrow> nat \<Rightarrow> promise list" where
  "uploadsOf s b = uploads (batches s ! b)"

subsection \<open>Strings and numbers\<close>

definition digit_of :: "nat \<Rightarrow> char" where
  "digit_of d = ''0123456789'' ! d"

fun decimal :: "nat \<Rightarrow> string" where
  "decimal n = (if n < 10 then [digit_of n] else decimal (n div 10) @ [digit_of (n mod 10)])"

declare decimal.simps [simp del]

text \<open>\<open>Math.round((transferredBytes / totalBytes) * 100)\<close>, on the exact quotient.\<close>

definition roundPercent :: "nat \<Rightarrow> nat \<Rightarrow> nat" where
  "roundPercent transferredBytes totalBytes =
     nat \<lfloor>(real transferredBytes / real totalBytes) * 100 + 1 / 2\<rfloor>"

text \<open>\<open>Math.floor(Math.log(bytes) / Math.log(1024))\<close>, on the exact logarithms.\<close>

definition logIndex :: "nat \<Rightarrow> nat" where
  "logIndex bytes = nat \<lfloor>ln (real bytes) / ln 1024\<rfloor>"

text \<open>
  \<open>(bytes / Math.pow(1024, i)).toFixed(1)\<close>: the decimal digits of the quotient rounded
  to one fractional digit, the larger neighbour on a tie.
\<close>

definition toFixed1 :: "nat \<Rightarrow> nat \<Rightarrow> string" where
  "toFixed1 bytes i =
     (let n = (20 * bytes + 1024 ^ i) div (2 * 1024 ^ i)
      in decimal (n div 10) @ ''.'' @ decimal (n mod 10))"

definition sizes :: "string list" where
  "sizes = [''B'', ''KB'', ''MB'', ''GB'']"

definition formatFileSize :: "nat option \<Rightarrow> string" where
  "formatFileSize bytes =
     (case bytes of
        None \<Rightarrow> ''Unknown size''
      | Some b \<Rightarrow>
          if b = 0 then ''Unknown size''
          else let i = logIndex b
               in toFixed1 b i @ '' '' @ (if i < length sizes then sizes ! i else ''undefined''))"

subsection \<open>Updating one entry of the progress list\<close>

text \<open>\<open>prev.map((item, i) => i === index ? f(item) : item)\<close>\<close>

definition map_indexed :: "('a \<Rightarrow> nat \<Rightarrow> 'b) \<Rightarrow> 'a list \<Rightarrow> 'b list" where
  "map_indexed f xs = map (\<lambda>(i, item). f item i) (enumerate 0 xs)"

definition setProgress :: "nat \<Rightarrow> nat \<Rightarrow> UploadProgress list \<Rightarrow> UploadProgress list" where
  "setProgress index p prev =
     map_indexed (\<lambda>item i. if i = index then item\<lparr>progress := p\<rparr> else item) prev"

definition markCompleted :: "nat \<Rightarrow> UploadProgress list \<Rightarrow> UploadProgress list" where
  "markCompleted index prev =
     map_indexed (\<lambda>item i. if i = index then item\<lparr>isUploading := False, progress := 100\<rparr>
                            else item) prev"

definition markFailed :: "nat \<Rightarrow> UploadProgress list \<Rightarrow> UploadProgress list" where
  "markFailed index prev =
     map_indexed (\<lambda>item i. if i = index then item\<lparr>isUploading := False, progress := 0\<rparr>
                            else item) prev"

text \<open>The \<open>onProgress\<close> callback of task \<open>index\<close>; \<open>totalBytes\<close> may be absent.\<close>

definition onProgress :: "nat \<Rightarrow> nat \<Rightarrow> nat option \<Rightarrow> UploadProgress list \<Rightarrow> UploadProgress list" where
  "onProgress index transferredBytes totalBytes prev =
     (case totalBytes of
        None \<Rightarrow> prev
      | Some t \<Rightarrow> if t = 0 then prev
                  else setProgress index (roundPercent transferredBytes t) prev)"

subsection \<open>Paths\<close>

text \<open>
  A path resolver is called with the identity; it throws when the identity is missing
  or empty (\<open>if (!identityId) throw\<close>), which is \<open>None\<close> here.
\<close>

definition resolvePath :: "string option \<Rightarrow> string \<Rightarrow> string option" where
  "resolvePath ident rest =
     (case ident of
        None \<Rightarrow> None
      | Some i \<Rightarrow> if i = [] then None else Some (''user-files/'' @ i @ ''/'' @ rest))"

definition uploadName :: "nat \<Rightarrow> string \<Rightarrow> string" where
  "uploadName now name = decimal now @ ''-'' @ name"

definition folderPath :: "string \<Rightarrow> string" where
  "folderPath folder = (if folder \<noteq> [] then folder @ ''/'' else [])"

definition destinationPath :: "string option \<Rightarrow> string \<Rightarrow> nat \<Rightarrow> string \<Rightarrow> string option" where
  "destinationPath ident folder now name =
     resolvePath ident (folderPath folder @ uploadName now name)"

definition issued :: "promise list \<Rightarrow> string list" where
  "issued ps = concat (map (\<lambda>p. case p of Pending (Some q) \<Rightarrow> [q] | _ \<Rightarrow> []) ps)"

subsection \<open>loadFiles\<close>

text \<open>
  Up to the \<open>await\<close>: \<open>setLoading(true)\<close>, \<open>setError(null)\<close>, and the call of \<open>list\<close> with the
  folder that this \<open>loadFiles\<close> closed over.
\<close>

definition loadFiles :: "string \<Rightarrow> DataRoom \<Rightarrow> DataRoom" where
  "loadFiles folder s =
     (let p = Pending (resolvePath (identityId s) folder)
      in s\<lparr>loading := True, error := None,
           listings := listings s @ [p],
           listLog := listLog s @ issued [p]\<rparr>)"

text \<open>After the \<open>await\<close>: \<open>setFiles(result.items || [])\<close>, then the \<open>finally\<close> block.\<close>

definition loadFiles_then :: "FileItem list option \<Rightarrow> DataRoom \<Rightarrow> DataRoom" where
  "loadFiles_then items s =
     s\<lparr>files := (case items of Some xs \<Rightarrow> xs | None \<Rightarrow> []), loading := False\<rparr>"

text \<open>The \<open>catch\<close> block, then the \<open>finally\<close> block.\<close>

definition loadFiles_catch :: "DataRoom \<Rightarrow> DataRoom" where
  "loadFiles_catch s = s\<lparr>error := Some ''Failed to load files'', loading := False\<rparr>"

subsection \<open>The folder scope\<close>

text \<open>
  \<open>setSelectedFolder\<close> with the value the cell already holds changes nothing and renders
  nothing. With a new value the component renders again, \<open>loadFiles\<close> is rebuilt for the new
  folder (its dependency list is \<open>[selectedFolder]\<close>) and the effect that depends on
  \<open>loadFiles\<close> calls it.
\<close>

definition setSelectedFolder :: "string \<Rightarrow> DataRoom \<Rightarrow> DataRoom" where
  "setSelectedFolder folder s =
     (if folder = selectedFolder s then s
      else loadFiles folder (s\<lparr>selectedFolder := folder\<rparr>))"

subsection \<open>handleFileSelect\<close>

text \<open>
  The continuation after \<open>await Promise.all(uploadPromises)\<close> of batch \<open>b\<close>, which runs
  once every promise of the batch is fulfilled: \<open>setError(null)\<close>, \<open>setTimeout\<close>,
  \<open>loadFiles()\<close> as the handler closed over it.
\<close>

definition promiseAll_then :: "nat \<Rightarrow> DataRoom \<Rightarrow> DataRoom" where
  "promiseAll_then b s =
     (if \<not> batchSettled (batches s ! b) \<and> (\<forall>p \<in> set (uploadsOf s b). p = Fulfilled)
      then loadFiles (capturedFolder (batches s ! b))
             (s\<lparr>batches := (batches s)[b := (batches s ! b)\<lparr>batchSettled := True\<rparr>],
                error := None, timers := timers s + 1\<rparr>)
      else s)"

text \<open>
  The \<open>catch\<close> around \<open>Promise.all\<close> of batch \<open>b\<close>, which runs at the first rejected
  promise of the batch: \<open>setError('Some files failed to upload')\<close>.
\<close>

definition promiseAll_catch :: "nat \<Rightarrow> DataRoom \<Rightarrow> DataRoom" where
  "promiseAll_catch b s =
     (if \<not> batchSettled (batches s ! b)
      then s\<lparr>batches := (batches s)[b := (batches s ! b)\<lparr>batchSettled := True\<rparr>],
             error := Some ''Some files failed to upload''\<rparr>
      else s)"

text \<open>
  The handler itself, for the selected file names and the reading of \<open>Date.now()\<close> that
  the task of each index takes. It replaces the progress list, and every \<open>uploadData\<close>
  is called before the handler yields. The new batch is the last of \<open>batches\<close>.
\<close>

definition handleFileSelect :: "string list option \<Rightarrow> (nat \<Rightarrow> nat) \<Rightarrow> DataRoom \<Rightarrow> DataRoom" where
  "handleFileSelect selectedFiles now s =
     (case selectedFiles of
        None \<Rightarrow> s
      | Some fileArray \<Rightarrow>
          let initialProgress =
                map (\<lambda>name. \<lparr>fileName = name, progress = 0, isUploading = True\<rparr>) fileArray;
              uploadPromises =
                map_indexed (\<lambda>name index.
                  Pending (destinationPath (identityId s) (selectedFolder s) (now index) name))
                  fileArray
          in promiseAll_then (length (batches s))
               (s\<lparr>uploadProgress := initialProgress,
                  batches := batches s @
                    [\<lparr>uploads = uploadPromises, batchSettled = False,
                      capturedFolder = selectedFolder s\<rparr>],
                  putLog := putLog s @ issued uploadPromises\<rparr>))"

text \<open>The Refresh button calls the \<open>loadFiles\<close> of the current render.\<close>

definition refresh :: "DataRoom \<Rightarrow> DataRoom" where
  "refresh s = loadFiles (selectedFolder s) s"

subsection \<open>Events\<close>

text \<open>
  What the user does (select files, choose a folder, press Refresh) and what the
  collaborators deliver. A put is named by its batch and its index in the batch.
\<close>

datatype event =
    Select "string list option" "nat \<Rightarrow> nat"
  | SetFolder string
  | Refresh
  | OnProgress nat nat nat "nat option"
  | PutFulfilled nat nat
  | PutRejected nat nat
  | ListFulfilled nat "FileItem list option"
  | ListRejected nat
  | Timeout

definition pending :: "promise list \<Rightarrow> nat \<Rightarrow> bool" where
  "pending ps i = (i < length ps \<and> (case ps ! i of Pending _ \<Rightarrow> True | _ \<Rightarrow> False))"

definition in_flight :: "promise list \<Rightarrow> nat \<Rightarrow> bool" where
  "in_flight ps i = (i < length ps \<and> (case ps ! i of Pending (Some _) \<Rightarrow> True | _ \<Rightarrow> False))"

text \<open>
  What can happen in a state: progress and success only for a put that is at the
  store, a rejection for any pending promise, the timer only when one is pending; the
  Refresh button is disabled while \<open>loading\<close>.
\<close>

fun enabled :: "DataRoom \<Rightarrow> event \<Rightarrow> bool" where
  "enabled s (Select selectedFiles now) = True"
| "enabled s (SetFolder folder) = True"
| "enabled s Refresh = (\<not> loading s)"
| "enabled s (OnProgress b i t T) = (b < length (batches s) \<and> in_flight (uploadsOf s b) i)"
| "enabled s (PutFulfilled b i) = (b < length (batches s) \<and> in_flight (uploadsOf s b) i)"
| "enabled s (PutRejected b i) = (b < length (batches s) \<and> pending (uploadsOf s b) i)"
| "enabled s (ListFulfilled k items) = in_flight (listings s) k"
| "enabled s (ListRejected k) = pending (listings s) k"
| "enabled s Timeout = (0 < timers s)"

text \<open>The promise of task \<open>i\<close> of batch \<open>b\<close> settles as \<open>p\<close>.\<close>

definition settle :: "nat \<Rightarrow> nat \<Rightarrow> promise \<Rightarrow> DataRoom \<Rightarrow> DataRoom" where
  "settle b i p s =
     s\<lparr>batches := (batches s)[b := (batches s ! b)\<lparr>uploads := (uploadsOf s b)[i := p]\<rparr>]\<rparr>"

text \<open>
  The reaction of the component to each event. The callbacks of a task address the
  progress list by the index of the task alone.
\<close>

fun fire :: "event \<Rightarrow> DataRoom \<Rightarrow> DataRoom" where
  "fire (Select selectedFiles now) s = handleFileSelect selectedFiles now s"
| "fire (SetFolder folder) s = setSelectedFolder folder s"
| "fire Refresh s = refresh s"
| "fire (OnProgress b i t T) s = s\<lparr>uploadProgress := onProgress i t T (uploadProgress s)\<rparr>"
| "fire (PutFulfilled b i) s =
     promiseAll_then b
       (settle b i Fulfilled (s\<lparr>uploadProgress := markCompleted i (uploadProgress s)\<rparr>))"
| "fire (PutRejected b i) s =
     promiseAll_catch b
       (settle b i Rejected (s\<lparr>uploadProgress := markFailed i (uploadProgress s)\<rparr>))"
| "fire (ListFulfilled k items) s =
     loadFiles_then items (s\<lparr>listings := (listings s)[k := Fulfilled]\<rparr>)"
| "fire (ListRejected k) s =
     loadFiles_catch (s\<lparr>listings := (listings s)[k := Rejected]\<rparr>)"
| "fire Timeout s = s\<lparr>uploadProgress := [], timers := timers s - 1\<rparr>"

definition step :: "event \<Rightarrow> DataRoom \<Rightarrow> DataRoom" where
  "step e s = (if enabled s e then fire e s else s)"

fun run :: "event list \<Rightarrow> DataRoom \<Rightarrow> DataRoom" where
  "run [] s = s"
| "run (e # es) s = run es (step e s)"

subsection \<open>The first render\<close>

text \<open>
  The initial values of the state cells, with nothing in flight; \<open>mount\<close> is the effect
  that calls \<open>loadFiles\<close> after the first render.
\<close>

definition initialState :: "string option \<Rightarrow> DataRoom" where
  "initialState ident =
     \<lparr>files = [], uploadProgress = [], loading = False, error = None, selectedFolder = [],
      identityId = ident, batches = [], putLog = [], listings = [], listLog = [],
      timers = 0\<rparr>"

definition mount :: "string option \<Rightarrow> DataRoom" where
  "mount ident = loadFiles (selectedFolder (initialState ident)) (initialState ident)"

subsection \<open>Vocabulary of the properties\<close>

text \<open>The batch whose put an event is about, if it is about a put.\<close>

fun batch_of :: "event \<Rightarrow> nat option" where
  "batch_of (OnProgress b i t T) = Some b"
| "batch_of (PutFulfilled b i) = Some b"
| "batch_of (PutRejected b i) = Some b"
| "batch_of e = None"

definition upload_event :: "event \<Rightarrow> bool" where
  "upload_event e = (batch_of e \<noteq> None)"

text \<open>
  An event that leaves the progress list to batch \<open>b\<close>: not the timer, not a new
  selection, not a callback of another batch.
\<close>

fun quiet :: "nat \<Rightarrow> event \<Rightarrow> bool" where
  "quiet b Timeout = False"
| "quiet b (Select selectedFiles now) = False"
| "quiet b e = (batch_of e = None \<or> batch_of e = Some b)"

text \<open>
  The component has no status field: a task is uploading while \<open>isUploading\<close> holds,
  completed when it shows \<open>isUploading = false\<close> with \<open>progress = 100\<close>, and failed when
  it shows \<open>isUploading = false\<close> with \<open>progress = 0\<close>.
\<close>

definition completed :: "string \<Rightarrow> UploadProgress" where
  "completed name = \<lparr>fileName = name, progress = 100, isUploading = False\<rparr>"

definition failed :: "string \<Rightarrow> UploadProgress" where
  "failed name = \<lparr>fileName = name, progress = 0, isUploading = False\<rparr>"

text \<open>The entry of a task agrees with the state of its promise.\<close>

definition entry_ok :: "string \<Rightarrow> promise \<Rightarrow> UploadProgress \<Rightarrow> bool" where
  "entry_ok name p e =
     (case p of
        Pending _ \<Rightarrow> fileName e = name \<and> isUploading e
      | Fulfilled \<Rightarrow> e = completed name
      | Rejected \<Rightarrow> e = failed name)"

definition tasks_ok :: "string list \<Rightarrow> nat \<Rightarrow> DataRoom \<Rightarrow> bool" where
  "tasks_ok names b s =
     (b < length (batches s) \<and> length (uploadProgress s) = length names \<and>
      length (uploadsOf s b) = length names \<and>
      (\<forall>i < length names. entry_ok (names ! i) (uploadsOf s b ! i) (uploadProgress s ! i)))"

text \<open>\<open>Promise.all\<close> has settled exactly when a promise is rejected or all are fulfilled.\<close>

definition settle_ok :: "batch \<Rightarrow> bool" where
  "settle_ok B =
     (batchSettled B \<longleftrightarrow> Rejected \<in> set (uploads B) \<or> (\<forall>p \<in> set (uploads B). p = Fulfilled))"


text \<open>
  What stays true of batch \<open>b\<close> from its submission on, whatever happens: it keeps its
  place, its folder and the number of its promises, and the identity does not change.
\<close>

definition batch_ok :: "nat \<Rightarrow> string \<Rightarrow> string option \<Rightarrow> nat \<Rightarrow> DataRoom \<Rightarrow> bool" where
  "batch_ok n folder ident b s =
     (b < length (batches s) \<and> length (uploadsOf s b) = n \<and>
      capturedFolder (batches s ! b) = folder \<and> identityId s = ident \<and>
      settle_ok (batches s ! b))"

text \<open>Two states that agree on everything the uploads read and write.\<close>

definition same_uploads :: "DataRoom \<Rightarrow> DataRoom \<Rightarrow> bool" where
  "same_uploads s t =
     (uploadProgress s = uploadProgress t \<and> batches s = batches t \<and>
      putLog s = putLog t \<and> identityId s = identityId t)"

section \<open>Properties\<close>

subsection \<open>Lists, rounding and logarithms\<close>

lemma length_map_indexed [simp]: "length (map_indexed f xs) = length xs"
  by (simp add: map_indexed_def)

lemma map_indexed_nth:
  "i < length xs \<Longrightarrow> map_indexed f xs ! i = f (xs ! i) i"
  by (simp add: map_indexed_def nth_enumerate_eq)

lemma map_indexed_update:
  "map_indexed (\<lambda>item i. if i = index then f item else item) xs =
     (if index < length xs then xs[index := f (xs ! index)] else xs)"
  by (rule nth_equalityI) (auto simp: map_indexed_nth nth_list_update)

lemma roundPercent_code [code]:
  "roundPercent t T = (200 * t + T) div (2 * T)"
proof (cases "T = 0")
  case True
  then show ?thesis by (simp add: roundPercent_def)
next
  case False
  have "(real t / real T) * 100 + 1 / 2 = real (200 * t + T) / real (2 * T)"
    using False by (simp add: field_simps)
  then have "\<lfloor>(real t / real T) * 100 + 1 / 2\<rfloor> = int ((200 * t + T) div (2 * T))"
    by (simp only: floor_divide_of_nat_eq)
  then show ?thesis by (simp add: roundPercent_def)
qed

lemma logIndex_code [code]:
  "logIndex b = floorlog 1024 b - 1"
  by (simp add: logIndex_def floorlog_def log_def)

lemma roundPercent_le_100:
  assumes "t \<le> T" and "0 < T"
  shows "roundPercent t T \<le> 100"
proof -
  have "200 * t + T < 101 * (2 * T)" using assms by simp
  then have "(200 * t + T) div (2 * T) < 101"
    using assms(2) by (simp add: less_mult_imp_div_less)
  then show ?thesis by (simp add: roundPercent_code)
qed

lemma logIndex_lt_4: "0 < b \<Longrightarrow> logIndex b < 4 \<longleftrightarrow> b < 1024 ^ 4"
proof -
  assume b: "0 < b"
  then have pos: "0 < floorlog 1024 b" by (simp add: floorlog_def)
  have "floorlog 1024 b \<le> 4 \<longleftrightarrow> b < 1024 ^ 4"
    by (simp add: floorlog_le_iff)
  with pos show ?thesis by (auto simp add: logIndex_code)
qed

lemma setProgress_update:
  "setProgress index p prev =
     (if index < length prev then prev[index := (prev ! index)\<lparr>progress := p\<rparr>] else prev)"
  unfolding setProgress_def by (rule map_indexed_update)

lemma markCompleted_update:
  "markCompleted index prev =
     (if index < length prev
      then prev[index := (prev ! index)\<lparr>isUploading := False, progress := 100\<rparr>] else prev)"
  unfolding markCompleted_def by (rule map_indexed_update)

lemma markFailed_update:
  "markFailed index prev =
     (if index < length prev
      then prev[index := (prev ! index)\<lparr>isUploading := False, progress := 0\<rparr>] else prev)"
  unfolding markFailed_def by (rule map_indexed_update)

lemma length_sizes: "length sizes = 4"
  by (simp add: sizes_def)

lemma last_sizes: "u \<in> set sizes \<Longrightarrow> u \<noteq> [] \<and> last u = CHR ''B''"
  by (auto simp: sizes_def)

subsection \<open>formatFileSize\<close>

text \<open>
  Claim C10. A file record whose size is absent or zero bytes is shown as
  \<open>Unknown size\<close>. For a positive size the text ends in one of the units \<open>B\<close>, \<open>KB\<close>,
  \<open>MB\<close>, \<open>GB\<close> exactly when the size is below \<open>1024 ^ 4\<close> bytes; from there on the
  lookup in \<open>sizes\<close> leaves the table.
\<close>

theorem formatFileSize_units:
  "formatFileSize None = ''Unknown size'' \<and>
   formatFileSize (Some 0) = ''Unknown size'' \<and>
   (0 < b \<longrightarrow>
      ((\<exists>num. \<exists>u \<in> set sizes. formatFileSize (Some b) = num @ '' '' @ u) \<longleftrightarrow> b < 1024 ^ 4))"
proof -
  have unit: "\<exists>num. \<exists>u \<in> set sizes. formatFileSize (Some b) = num @ '' '' @ u"
    if "0 < b" "b < 1024 ^ 4"
  proof -
    from that have "logIndex b < 4" using logIndex_lt_4 by blast
    then have i: "logIndex b < length sizes" by (simp add: length_sizes)
    then have "sizes ! logIndex b \<in> set sizes" by simp
    moreover have "formatFileSize (Some b) =
        toFixed1 b (logIndex b) @ '' '' @ sizes ! logIndex b"
      using that(1) i by (simp add: formatFileSize_def Let_def)
    ultimately show ?thesis by blast
  qed
  have nounit: "\<not> (\<exists>num. \<exists>u \<in> set sizes. formatFileSize (Some b) = num @ '' '' @ u)"
    if "0 < b" "\<not> b < 1024 ^ 4"
  proof
    assume "\<exists>num. \<exists>u \<in> set sizes. formatFileSize (Some b) = num @ '' '' @ u"
    then obtain num u where u: "u \<in> set sizes"
      and eq: "formatFileSize (Some b) = num @ '' '' @ u" by blast
    from that have "\<not> logIndex b < 4" using logIndex_lt_4 by blast
    then have "\<not> logIndex b < length sizes" by (simp add: length_sizes)
    with that(1) have "formatFileSize (Some b) = toFixed1 b (logIndex b) @ '' undefined''"
      by (simp add: formatFileSize_def Let_def)
    then have "last (formatFileSize (Some b)) = CHR ''d''" by simp
    moreover from u have "last (num @ '' '' @ u) = CHR ''B''"
      using last_sizes [OF u] by simp
    ultimately show False using eq by simp
  qed
  show ?thesis
    using unit nounit by (auto simp: formatFileSize_def)
qed

theorem formatFileSize_units_witness:
  "formatFileSize None = ''Unknown size'' \<and>
   formatFileSize (Some 0) = ''Unknown size'' \<and>
   (\<exists>num. \<exists>u \<in> set sizes. formatFileSize (Some 1536) = num @ '' '' @ u) \<and>
   formatFileSize (Some 1536) = ''1.5 KB'' \<and>
   \<not> (\<exists>num. \<exists>u \<in> set sizes. formatFileSize (Some (1024 ^ 4)) = num @ '' '' @ u) \<and>
   formatFileSize (Some (1024 ^ 4)) = ''1.0 undefined''"
proof -
  have a: "formatFileSize (Some 1536) = ''1.5 KB''"
    by (simp add: formatFileSize_def logIndex_code compute_floorlog toFixed1_def
        decimal.simps digit_of_def sizes_def)
  have b: "formatFileSize (Some (1024 ^ 4)) = ''1.0 undefined''"
    by (simp add: formatFileSize_def logIndex_code compute_floorlog toFixed1_def
        decimal.simps digit_of_def sizes_def)
  show ?thesis
    using formatFileSize_units [of 1536] formatFileSize_units [of "1024 ^ 4"] a b
    by simp
qed

subsection \<open>The progress callback\<close>

lemma progress_setProgress:
  assumes "\<forall>item \<in> set prev. progress item \<le> 100" and "p \<le> 100"
  shows "\<forall>item \<in> set (setProgress index p prev). progress item \<le> 100"
proof (cases "index < length prev")
  case True
  have "set (prev[index := (prev ! index)\<lparr>progress := p\<rparr>])
          \<subseteq> insert ((prev ! index)\<lparr>progress := p\<rparr>) (set prev)"
    by (rule set_update_subset_insert)
  with assms True show ?thesis
    by (auto simp: setProgress_update)
next
  case False
  with assms show ?thesis by (simp add: setProgress_update)
qed

text \<open>
  Claim C9, as the code has it. A progress callback whose \<open>totalBytes\<close> is absent or
  zero leaves the progress list, and with it the whole state, as it was: the quotient
  is computed only for a positive total. The quotient is not clamped, so a list whose
  percentages are all at most 100 stays so under the callbacks that are guarded or
  report at most \<open>totalBytes\<close> bytes transferred.
\<close>

theorem onProgress_guarded:
  "(totalBytes = None \<or> totalBytes = Some 0 \<longrightarrow>
      onProgress index transferredBytes totalBytes prev = prev \<and>
      fire (OnProgress b index transferredBytes totalBytes) s = s) \<and>
   ((\<forall>t. totalBytes = Some t \<longrightarrow> transferredBytes \<le> t) \<longrightarrow>
      (\<forall>item \<in> set prev. progress item \<le> 100) \<longrightarrow>
      (\<forall>item \<in> set (onProgress index transferredBytes totalBytes prev). progress item \<le> 100))"
proof (intro conjI impI)
  assume "totalBytes = None \<or> totalBytes = Some 0"
  then show "onProgress index transferredBytes totalBytes prev = prev"
    by (auto simp: onProgress_def)
next
  assume "totalBytes = None \<or> totalBytes = Some 0"
  then show "fire (OnProgress b index transferredBytes totalBytes) s = s"
    by (auto simp: onProgress_def)
next
  assume le: "\<forall>t. totalBytes = Some t \<longrightarrow> transferredBytes \<le> t"
    and prev: "\<forall>item \<in> set prev. progress item \<le> 100"
  show "\<forall>item \<in> set (onProgress index transferredBytes totalBytes prev). progress item \<le> 100"
  proof (cases totalBytes)
    case None
    with prev show ?thesis by (simp add: onProgress_def)
  next
    case (Some t)
    show ?thesis
    proof (cases "t = 0")
      case True
      with Some prev show ?thesis by (simp add: onProgress_def)
    next
      case False
      with le Some have "roundPercent transferredBytes t \<le> 100"
        by (simp add: roundPercent_le_100)
      from progress_setProgress [OF prev this] Some False show ?thesis
        by (simp add: onProgress_def)
    qed
  qed
qed

theorem onProgress_guarded_witness:
  "onProgress 0 512 (Some 0) [\<lparr>fileName = ''a.txt'', progress = 40, isUploading = True\<rparr>]
     = [\<lparr>fileName = ''a.txt'', progress = 40, isUploading = True\<rparr>] \<and>
   onProgress 0 512 None [\<lparr>fileName = ''a.txt'', progress = 40, isUploading = True\<rparr>]
     = [\<lparr>fileName = ''a.txt'', progress = 40, isUploading = True\<rparr>] \<and>
   onProgress 0 512 (Some 1024) [\<lparr>fileName = ''a.txt'', progress = 40, isUploading = True\<rparr>]
     = [\<lparr>fileName = ''a.txt'', progress = 50, isUploading = True\<rparr>]"
proof -
  let ?prev = "[\<lparr>fileName = ''a.txt'', progress = 40, isUploading = True\<rparr>]"
  have a: "onProgress 0 512 (Some 1024) ?prev
      = [\<lparr>fileName = ''a.txt'', progress = 50, isUploading = True\<rparr>]"
    by (simp add: onProgress_def setProgress_update roundPercent_code)
  show ?thesis
    using onProgress_guarded [of "Some 0" 0 512 ?prev 0 "initialState None"]
      onProgress_guarded [of None 0 512 ?prev 0 "initialState None"]
      onProgress_guarded [of "Some 1024" 0 512 ?prev]
      a
    by simp
qed

text \<open>
  Claim C9 as stated fails: a callback that reports more bytes transferred than
  \<open>totalBytes\<close> puts a percentage above 100 into the list.
\<close>

theorem progress_above_100:
  "onProgress 0 2048 (Some 1024) [\<lparr>fileName = ''a.txt'', progress = 40, isUploading = True\<rparr>]
     = [\<lparr>fileName = ''a.txt'', progress = 200, isUploading = True\<rparr>] \<and>
   \<not> progress (hd (onProgress 0 2048 (Some 1024)
          [\<lparr>fileName = ''a.txt'', progress = 40, isUploading = True\<rparr>])) \<le> 100"
  by (simp add: onProgress_def setProgress_update roundPercent_code)


subsection \<open>What each handler leaves alone\<close>

lemma nth_update_proj:
  assumes "f (g (xs ! b)) = f (xs ! b)"
  shows "f (xs[b := g (xs ! b)] ! c) = f (xs ! c)"
  by (cases "c = b"; cases "b < length xs") (simp_all add: assms list_update_beyond)

lemma loadFiles_frame [simp]:
  "files (loadFiles folder s) = files s"
  "uploadProgress (loadFiles folder s) = uploadProgress s"
  "selectedFolder (loadFiles folder s) = selectedFolder s"
  "identityId (loadFiles folder s) = identityId s"
  "batches (loadFiles folder s) = batches s"
  "putLog (loadFiles folder s) = putLog s"
  "timers (loadFiles folder s) = timers s"
  by (simp_all add: loadFiles_def Let_def)

lemma loadFiles_effect [simp]:
  "loading (loadFiles folder s) = True"
  "error (loadFiles folder s) = None"
  "listings (loadFiles folder s) = listings s @ [Pending (resolvePath (identityId s) folder)]"
  by (simp_all add: loadFiles_def Let_def)

lemma listLog_loadFiles:
  "listLog (loadFiles folder s) =
     listLog s @ (case resolvePath (identityId s) folder of None \<Rightarrow> [] | Some p \<Rightarrow> [p])"
  by (simp add: loadFiles_def Let_def issued_def split: option.splits)

lemma loadFiles_then_frame [simp]:
  "uploadProgress (loadFiles_then items s) = uploadProgress s"
  "batches (loadFiles_then items s) = batches s"
  "identityId (loadFiles_then items s) = identityId s"
  "selectedFolder (loadFiles_then items s) = selectedFolder s"
  "putLog (loadFiles_then items s) = putLog s"
  "listings (loadFiles_then items s) = listings s"
  "listLog (loadFiles_then items s) = listLog s"
  "timers (loadFiles_then items s) = timers s"
  by (simp_all add: loadFiles_then_def)

lemma loadFiles_catch_frame [simp]:
  "uploadProgress (loadFiles_catch s) = uploadProgress s"
  "batches (loadFiles_catch s) = batches s"
  "identityId (loadFiles_catch s) = identityId s"
  "selectedFolder (loadFiles_catch s) = selectedFolder s"
  "putLog (loadFiles_catch s) = putLog s"
  "listings (loadFiles_catch s) = listings s"
  "listLog (loadFiles_catch s) = listLog s"
  "timers (loadFiles_catch s) = timers s"
  by (simp_all add: loadFiles_catch_def)

lemma uploadsOf_cong [simp]:
  "uploadsOf (loadFiles folder s) b = uploadsOf s b"
  "uploadsOf (loadFiles_then items s) b = uploadsOf s b"
  "uploadsOf (loadFiles_catch s) b = uploadsOf s b"
  "uploadsOf (s\<lparr>uploadProgress := ps\<rparr>) b = uploadsOf s b"
  "uploadsOf (s\<lparr>listings := ls\<rparr>) b = uploadsOf s b"
  "uploadsOf (s\<lparr>timers := n\<rparr>) b = uploadsOf s b"
  "uploadsOf (s\<lparr>selectedFolder := f\<rparr>) b = uploadsOf s b"
  by (simp_all add: uploadsOf_def)

lemma promiseAll_then_frame [simp]:
  "files (promiseAll_then b s) = files s"
  "uploadProgress (promiseAll_then b s) = uploadProgress s"
  "selectedFolder (promiseAll_then b s) = selectedFolder s"
  "identityId (promiseAll_then b s) = identityId s"
  "putLog (promiseAll_then b s) = putLog s"
  "length (batches (promiseAll_then b s)) = length (batches s)"
  by (simp_all add: promiseAll_then_def)

lemma promiseAll_then_batch [simp]:
  "uploadsOf (promiseAll_then b s) c = uploadsOf s c"
  "capturedFolder (batches (promiseAll_then b s) ! c) = capturedFolder (batches s ! c)"
  by (simp_all add: promiseAll_then_def uploadsOf_def nth_update_proj)

lemma promiseAll_then_other:
  "c \<noteq> b \<Longrightarrow> batches (promiseAll_then b s) ! c = batches s ! c"
  by (simp add: promiseAll_then_def)

lemma promiseAll_catch_frame [simp]:
  "files (promiseAll_catch b s) = files s"
  "uploadProgress (promiseAll_catch b s) = uploadProgress s"
  "loading (promiseAll_catch b s) = loading s"
  "selectedFolder (promiseAll_catch b s) = selectedFolder s"
  "identityId (promiseAll_catch b s) = identityId s"
  "putLog (promiseAll_catch b s) = putLog s"
  "listings (promiseAll_catch b s) = listings s"
  "listLog (promiseAll_catch b s) = listLog s"
  "timers (promiseAll_catch b s) = timers s"
  "length (batches (promiseAll_catch b s)) = length (batches s)"
  by (simp_all add: promiseAll_catch_def)

lemma promiseAll_catch_batch [simp]:
  "uploadsOf (promiseAll_catch b s) c = uploadsOf s c"
  "capturedFolder (batches (promiseAll_catch b s) ! c) = capturedFolder (batches s ! c)"
  by (simp_all add: promiseAll_catch_def uploadsOf_def nth_update_proj)

lemma promiseAll_catch_other:
  "c \<noteq> b \<Longrightarrow> batches (promiseAll_catch b s) ! c = batches s ! c"
  by (simp add: promiseAll_catch_def)

lemma settle_frame [simp]:
  "files (settle b i p s) = files s"
  "uploadProgress (settle b i p s) = uploadProgress s"
  "loading (settle b i p s) = loading s"
  "error (settle b i p s) = error s"
  "selectedFolder (settle b i p s) = selectedFolder s"
  "identityId (settle b i p s) = identityId s"
  "putLog (settle b i p s) = putLog s"
  "listings (settle b i p s) = listings s"
  "listLog (settle b i p s) = listLog s"
  "timers (settle b i p s) = timers s"
  "length (batches (settle b i p s)) = length (batches s)"
  by (simp_all add: settle_def)

lemma settle_batch [simp]:
  "batchSettled (batches (settle b i p s) ! c) = batchSettled (batches s ! c)"
  "capturedFolder (batches (settle b i p s) ! c) = capturedFolder (batches s ! c)"
  by (simp_all add: settle_def nth_update_proj)

lemma settle_other: "c \<noteq> b \<Longrightarrow> batches (settle b i p s) ! c = batches s ! c"
  by (simp add: settle_def)

lemma uploadsOf_settle:
  "b < length (batches s) \<Longrightarrow> uploadsOf (settle b i p s) b = (uploadsOf s b)[i := p]"
  "c \<noteq> b \<Longrightarrow> uploadsOf (settle b i p s) c = uploadsOf s c"
  by (simp_all add: settle_def uploadsOf_def)

lemma pending_update:
  "j \<noteq> i \<Longrightarrow> pending (ps[i := p]) j = pending ps j"
  "j \<noteq> i \<Longrightarrow> in_flight (ps[i := p]) j = in_flight ps j"
  by (simp_all add: pending_def in_flight_def)

lemma in_flight_pending: "in_flight ps i \<Longrightarrow> pending ps i"
  by (auto simp: in_flight_def pending_def split: promise.splits option.splits)

lemma in_flight_nth: "in_flight ps i \<Longrightarrow> i < length ps \<and> (\<exists>q. ps ! i = Pending (Some q))"
  by (auto simp: in_flight_def split: promise.splits option.splits)

lemma pending_nth: "pending ps i \<Longrightarrow> i < length ps \<and> (\<exists>q. ps ! i = Pending q)"
  by (auto simp: pending_def split: promise.splits)

subsection \<open>Refreshing the listing\<close>

text \<open>
  Claim C4. A refresh that fails keeps the published files. Calling \<open>loadFiles\<close> does not
  touch \<open>files\<close>, and neither does the rejection of a listing, whether the store failed
  or the path resolver threw for want of an identity (such a call can only be
  rejected). So when a listing has published \<open>xs\<close> and the next refresh fails, the
  published files are still exactly \<open>xs\<close>, and the error is \<open>Failed to load files\<close>.
\<close>

theorem refresh_failure_keeps_files:
  "files (loadFiles folder s) = files s \<and>
   files (step (ListRejected k) s) = files s \<and>
   (resolvePath (identityId s) folder = None \<longrightarrow>
      \<not> enabled (loadFiles folder s) (ListFulfilled (length (listings s)) items)) \<and>
   (in_flight (listings s) j \<longrightarrow>
      (let published = step (ListFulfilled j (Some xs)) s;
           failing = step (ListRejected (length (listings s))) (loadFiles folder published)
       in files published = xs \<and>
          enabled (loadFiles folder published) (ListRejected (length (listings s))) \<and>
          files failing = xs \<and> length (files failing) = length xs \<and>
          error failing = Some ''Failed to load files''))"
proof (intro conjI impI)
  show "files (loadFiles folder s) = files s" by simp
  show "files (step (ListRejected k) s) = files s"
    by (simp add: step_def loadFiles_catch_def)
  show "\<not> enabled (loadFiles folder s) (ListFulfilled (length (listings s)) items)"
    if "resolvePath (identityId s) folder = None"
    using that by (simp add: in_flight_def)
  show "let published = step (ListFulfilled j (Some xs)) s;
            failing = step (ListRejected (length (listings s))) (loadFiles folder published)
        in files published = xs \<and>
           enabled (loadFiles folder published) (ListRejected (length (listings s))) \<and>
           files failing = xs \<and> length (files failing) = length xs \<and>
           error failing = Some ''Failed to load files''"
    if "in_flight (listings s) j"
    using that
    by (simp add: Let_def step_def loadFiles_then_def loadFiles_catch_def pending_def nth_append)
qed

theorem refresh_failure_keeps_files_witness:
  "(let s = mount (Some ''u1'');
        f = \<lparr>path = ''user-files/u1/1-a.txt'', size_bytes = Some 3,
             lastModified = None, eTag = None\<rparr>;
        published = step (ListFulfilled 0 (Some [f])) s;
        failing = step (ListRejected 1) (loadFiles [] published)
    in in_flight (listings s) 0 \<and> files published = [f] \<and>
       enabled (loadFiles [] published) (ListRejected 1) \<and>
       files failing = [f] \<and> error failing = Some ''Failed to load files'') \<and>
   \<not> enabled (loadFiles [] (initialState None)) (ListFulfilled 0 None)"
proof -
  let ?f = "\<lparr>path = ''user-files/u1/1-a.txt'', size_bytes = Some 3,
             lastModified = None, eTag = None\<rparr>"
  have l: "length (listings (mount (Some ''u1''))) = 1"
    and i: "in_flight (listings (mount (Some ''u1''))) 0"
    by (simp_all add: mount_def initialState_def in_flight_def resolvePath_def)
  have n: "resolvePath (identityId (initialState None)) [] = None"
    and e: "length (listings (initialState None)) = 0"
    by (simp_all add: initialState_def resolvePath_def)
  show ?thesis
    using refresh_failure_keeps_files
            [of "[]" "mount (Some ''u1'')" 0 None 0 "[?f]"]
          refresh_failure_keeps_files
            [of "[]" "initialState None" 0 None 0 "[]"]
          l i n e
    by (simp add: Let_def)
qed

subsection \<open>A batch and its promises\<close>

lemma handleFileSelect_Some:
  "handleFileSelect (Some names) now s =
     promiseAll_then (length (batches s))
       (s\<lparr>uploadProgress :=
            map (\<lambda>name. \<lparr>fileName = name, progress = 0, isUploading = True\<rparr>) names,
          batches := batches s @
            [\<lparr>uploads = map_indexed (\<lambda>name index.
                 Pending (destinationPath (identityId s) (selectedFolder s) (now index) name))
                 names,
              batchSettled = False, capturedFolder = selectedFolder s\<rparr>],
          putLog := putLog s @ issued (map_indexed (\<lambda>name index.
                 Pending (destinationPath (identityId s) (selectedFolder s) (now index) name))
                 names)\<rparr>)"
  by (simp add: handleFileSelect_def Let_def)

lemma submit_frame [simp]:
  "files (handleFileSelect fs now s) = files s"
  "selectedFolder (handleFileSelect fs now s) = selectedFolder s"
  "identityId (handleFileSelect fs now s) = identityId s"
  by (simp_all add: handleFileSelect_def Let_def split: option.splits)

lemma length_batches_submit [simp]:
  "length (batches (handleFileSelect (Some names) now s)) = Suc (length (batches s))"
  by (simp add: handleFileSelect_Some)

lemma uploadProgress_submit:
  "uploadProgress (handleFileSelect (Some names) now s) =
     map (\<lambda>name. \<lparr>fileName = name, progress = 0, isUploading = True\<rparr>) names"
  by (simp add: handleFileSelect_Some)

lemma uploads_submit:
  "uploadsOf (handleFileSelect (Some names) now s) (length (batches s)) =
     map_indexed (\<lambda>name index.
       Pending (destinationPath (identityId s) (selectedFolder s) (now index) name)) names"
  by (simp add: handleFileSelect_Some) (simp add: uploadsOf_def)

lemma uploads_submit_nth:
  "i < length names \<Longrightarrow>
   uploadsOf (handleFileSelect (Some names) now s) (length (batches s)) ! i =
     Pending (destinationPath (identityId s) (selectedFolder s) (now i) (names ! i))"
  by (simp add: uploads_submit map_indexed_nth)

lemma uploads_submit_pending:
  assumes "p \<in> set (uploadsOf (handleFileSelect (Some names) now s) (length (batches s)))"
  shows "\<exists>q. p = Pending q"
proof -
  from assms obtain i where "i < length names"
    and "uploadsOf (handleFileSelect (Some names) now s) (length (batches s)) ! i = p"
    by (auto simp: in_set_conv_nth uploads_submit)
  then show ?thesis by (auto simp: uploads_submit_nth)
qed

lemma capturedFolder_submit:
  "capturedFolder (batches (handleFileSelect (Some names) now s) ! length (batches s))
     = selectedFolder s"
  by (simp add: handleFileSelect_Some)

lemma putLog_submit:
  "putLog (handleFileSelect (Some names) now s) =
     putLog s @ issued (uploadsOf (handleFileSelect (Some names) now s) (length (batches s)))"
  by (simp add: uploads_submit) (simp add: handleFileSelect_Some)

lemma batches_submit_old:
  "c < length (batches s) \<Longrightarrow> batches (handleFileSelect fs now s) ! c = batches s ! c"
  by (cases fs) (simp_all add: handleFileSelect_def Let_def promiseAll_then_other nth_append)

lemma batchSettled_promiseAll_then:
  "b < length (batches s) \<Longrightarrow>
   batchSettled (batches (promiseAll_then b s) ! b) \<longleftrightarrow>
     batchSettled (batches s ! b) \<or> (\<forall>p \<in> set (uploadsOf s b). p = Fulfilled)"
  by (auto simp: promiseAll_then_def)

lemma batchSettled_submit:
  "batchSettled (batches (handleFileSelect (Some names) now s) ! length (batches s)) \<longleftrightarrow>
     (\<forall>p \<in> set (uploadsOf (handleFileSelect (Some names) now s) (length (batches s))).
        p = Fulfilled)"
  by (simp add: uploads_submit) (simp add: handleFileSelect_Some batchSettled_promiseAll_then
      uploadsOf_def)

text \<open>How each event changes one batch.\<close>

lemma batch_PutFulfilled:
  assumes "b < length (batches s)"
  shows "batches (fire (PutFulfilled b i) s) ! b =
     (let B = (batches s ! b)\<lparr>uploads := (uploadsOf s b)[i := Fulfilled]\<rparr>
      in if \<not> batchSettled B \<and> (\<forall>p \<in> set (uploads B). p = Fulfilled)
         then B\<lparr>batchSettled := True\<rparr> else B)"
  using assms by (simp add: promiseAll_then_def settle_def uploadsOf_def Let_def)

lemma batch_PutRejected:
  assumes "b < length (batches s)"
  shows "batches (fire (PutRejected b i) s) ! b =
     (batches s ! b)\<lparr>uploads := (uploadsOf s b)[i := Rejected], batchSettled := True\<rparr>"
  using assms by (simp add: promiseAll_catch_def settle_def uploadsOf_def)

lemma batch_other_event:
  assumes "b < length (batches s)" and "\<forall>i. e \<noteq> PutFulfilled b i" and "\<forall>i. e \<noteq> PutRejected b i"
  shows "batches (fire e s) ! b = batches s ! b"
proof (cases e)
  case (Select fs now)
  with assms(1) show ?thesis by (simp add: batches_submit_old)
next
  case (SetFolder folder)
  then show ?thesis by (simp add: setSelectedFolder_def)
next
  case Refresh
  then show ?thesis by (simp add: refresh_def)
next
  case (OnProgress c i t T)
  then show ?thesis by simp
next
  case (PutFulfilled c i)
  with assms(2) have "c \<noteq> b" by auto
  with PutFulfilled show ?thesis by (simp add: promiseAll_then_other settle_other)
next
  case (PutRejected c i)
  with assms(3) have "c \<noteq> b" by auto
  with PutRejected show ?thesis by (simp add: promiseAll_catch_other settle_other)
next
  case (ListFulfilled k items)
  then show ?thesis by simp
next
  case (ListRejected k)
  then show ?thesis by simp
next
  case Timeout
  then show ?thesis by simp
qed

lemma length_batches_fire: "length (batches s) \<le> length (batches (fire e s))"
  by (cases e) (simp_all add: handleFileSelect_def Let_def setSelectedFolder_def refresh_def
      split: option.splits)

lemma length_batches_step: "length (batches s) \<le> length (batches (step e s))"
  by (simp add: step_def length_batches_fire)

lemma identityId_step [simp]: "identityId (step e s) = identityId s"
  by (cases e) (simp_all add: step_def setSelectedFolder_def refresh_def)

lemma identityId_run [simp]: "identityId (run evs s) = identityId s"
  by (induction evs arbitrary: s) simp_all

lemma uploadsOf_fire:
  assumes "b < length (batches s)"
  shows "uploadsOf (fire e s) b =
     (case e of
        PutFulfilled c i \<Rightarrow> if c = b then (uploadsOf s b)[i := Fulfilled] else uploadsOf s b
      | PutRejected c i \<Rightarrow> if c = b then (uploadsOf s b)[i := Rejected] else uploadsOf s b
      | _ \<Rightarrow> uploadsOf s b)"
proof (cases e)
  case (PutFulfilled c i)
  show ?thesis
  proof (cases "c = b")
    case True
    with PutFulfilled assms show ?thesis by (simp add: uploadsOf_settle)
  next
    case False
    with PutFulfilled show ?thesis by (simp add: uploadsOf_settle)
  qed
next
  case (PutRejected c i)
  show ?thesis
  proof (cases "c = b")
    case True
    with PutRejected assms show ?thesis by (simp add: uploadsOf_settle)
  next
    case False
    with PutRejected show ?thesis by (simp add: uploadsOf_settle)
  qed
next
  case (Select fs now)
  with assms batches_submit_old [of b s fs now] show ?thesis by (simp add: uploadsOf_def)
next
  case (SetFolder folder)
  then show ?thesis by (simp add: setSelectedFolder_def uploadsOf_def)
next
  case Refresh
  then show ?thesis by (simp add: refresh_def)
next
  case (OnProgress c i t T)
  then show ?thesis by simp
next
  case (ListFulfilled k items)
  then show ?thesis by simp
next
  case (ListRejected k)
  then show ?thesis by simp
next
  case Timeout
  then show ?thesis by (simp add: uploadsOf_def)
qed

lemma capturedFolder_fire:
  assumes "b < length (batches s)"
  shows "capturedFolder (batches (fire e s) ! b) = capturedFolder (batches s ! b)"
proof (cases "(\<forall>i. e \<noteq> PutFulfilled b i) \<and> (\<forall>i. e \<noteq> PutRejected b i)")
  case True
  with assms show ?thesis by (simp add: batch_other_event)
next
  case False
  then show ?thesis by auto
qed

subsection \<open>When Promise.all settles\<close>

lemma update_Fulfilled_Rejected:
  assumes "i < length ps" and "ps ! i = Pending q"
  shows "Rejected \<in> set (ps[i := Fulfilled]) \<longleftrightarrow> Rejected \<in> set ps"
proof
  assume "Rejected \<in> set (ps[i := Fulfilled])"
  then have "Rejected \<in> insert Fulfilled (set ps)"
    using set_update_subset_insert by fastforce
  then show "Rejected \<in> set ps" by simp
next
  assume "Rejected \<in> set ps"
  then obtain j where j: "j < length ps" "ps ! j = Rejected"
    by (auto simp: in_set_conv_nth)
  with assms have "j \<noteq> i" by auto
  with j have "ps[i := Fulfilled] ! j = Rejected" by simp
  with j(1) show "Rejected \<in> set (ps[i := Fulfilled])"
    by (metis length_list_update nth_mem)
qed

lemma pending_not_all_fulfilled:
  assumes "i < length ps" and "ps ! i = Pending q"
  shows "\<not> (\<forall>p \<in> set ps. p = Fulfilled)"
  using assms by (metis nth_mem promise.distinct(1))

lemma update_Rejected_mem:
  "i < length ps \<Longrightarrow> Rejected \<in> set (ps[i := Rejected])"
  by (simp add: set_update_memI)

lemma rejected_not_all_fulfilled:
  "Rejected \<in> set ps \<Longrightarrow> \<not> (\<forall>p \<in> set ps. p = Fulfilled)"
  by auto

lemma settle_ok_fire:
  assumes "b < length (batches s)" and "enabled s e" and "settle_ok (batches s ! b)"
  shows "settle_ok (batches (fire e s) ! b)"
proof -
  consider i where "e = PutFulfilled b i" | i where "e = PutRejected b i"
    | "(\<forall>i. e \<noteq> PutFulfilled b i) \<and> (\<forall>i. e \<noteq> PutRejected b i)"
    by blast
  then show ?thesis
  proof cases
    case 1
    with assms(2) in_flight_nth [of "uploadsOf s b" i] obtain q
      where i: "i < length (uploadsOf s b)" and q: "uploadsOf s b ! i = Pending q" by auto
    note a = update_Fulfilled_Rejected [OF i q] pending_not_all_fulfilled [OF i q]
    from assms(3) a show ?thesis
      unfolding 1 batch_PutFulfilled [OF assms(1)]
      by (auto simp: settle_ok_def Let_def uploadsOf_def)
  next
    case 2
    with assms(2) pending_nth [of "uploadsOf s b" i] obtain q
      where i: "i < length (uploadsOf s b)" and q: "uploadsOf s b ! i = Pending q" by auto
    note a = update_Rejected_mem [OF i]
    from a show ?thesis
      unfolding 2 batch_PutRejected [OF assms(1)]
      by (simp add: settle_ok_def)
  next
    case 3
    with assms(1,3) show ?thesis by (simp add: batch_other_event)
  qed
qed

lemma batch_ok_step:
  assumes "batch_ok n folder ident b s"
  shows "batch_ok n folder ident b (step e s)"
proof (cases "enabled s e")
  case False
  with assms show ?thesis by (simp add: step_def)
next
  case True
  from assms have b: "b < length (batches s)" by (simp add: batch_ok_def)
  with length_batches_fire [of s e] have "b < length (batches (fire e s))" by simp
  moreover have "length (uploadsOf (fire e s) b) = n"
    using assms by (simp add: uploadsOf_fire [OF b] batch_ok_def split: event.splits)
  moreover have "capturedFolder (batches (fire e s) ! b) = folder"
    using assms by (simp add: capturedFolder_fire [OF b] batch_ok_def)
  moreover have "identityId (fire e s) = ident"
    using assms identityId_step [of e s] True by (simp add: step_def batch_ok_def)
  moreover have "settle_ok (batches (fire e s) ! b)"
    using assms b True by (simp add: settle_ok_fire batch_ok_def)
  ultimately show ?thesis using True by (simp add: step_def batch_ok_def)
qed

lemma batch_ok_run: "batch_ok n folder ident b s \<Longrightarrow> batch_ok n folder ident b (run evs s)"
  by (induction evs arbitrary: s) (simp_all add: batch_ok_step)

lemma settle_ok_submit:
  "settle_ok (batches (handleFileSelect (Some names) now s) ! length (batches s))"
proof -
  let ?h = "handleFileSelect (Some names) now s"
  let ?b = "length (batches s)"
  have nr: "Rejected \<notin> set (uploadsOf ?h ?b)"
    using uploads_submit_pending [of Rejected names now s] by auto
  show ?thesis
    using nr batchSettled_submit [of names now s]
    by (simp add: settle_ok_def uploadsOf_def)
qed

lemma batch_ok_submit:
  "batch_ok (length names) (selectedFolder s) (identityId s) (length (batches s))
     (handleFileSelect (Some names) now s)"
  by (simp add: batch_ok_def uploads_submit capturedFolder_submit settle_ok_submit)



subsection \<open>The entries of a batch follow its promises\<close>

lemma entry_ok_Pending [simp]:
  "entry_ok name (Pending q) e \<longleftrightarrow> fileName e = name \<and> isUploading e"
  by (simp add: entry_ok_def)

lemma entry_ok_Fulfilled [simp]: "entry_ok name Fulfilled e \<longleftrightarrow> e = completed name"
  by (simp add: entry_ok_def)

lemma entry_ok_Rejected [simp]: "entry_ok name Rejected e \<longleftrightarrow> e = failed name"
  by (simp add: entry_ok_def)

lemma completed_eq:
  "fileName e = name \<Longrightarrow> e\<lparr>isUploading := False, progress := 100\<rparr> = completed name"
  by (cases e) (simp add: completed_def)

lemma failed_eq:
  "fileName e = name \<Longrightarrow> e\<lparr>isUploading := False, progress := 0\<rparr> = failed name"
  by (cases e) (simp add: failed_def)

lemma tasks_ok_submit:
  "tasks_ok names (length (batches s)) (handleFileSelect (Some names) now s)"
  by (simp add: tasks_ok_def uploads_submit uploadProgress_submit map_indexed_nth)

lemma tasks_ok_OnProgress:
  assumes "tasks_ok names b s" and "in_flight (uploadsOf s b) i"
  shows "tasks_ok names b (s\<lparr>uploadProgress := onProgress i t T (uploadProgress s)\<rparr>)"
proof -
  from in_flight_nth [OF assms(2)] obtain q where q: "uploadsOf s b ! i = Pending (Some q)"
    by blast
  have "entry_ok (names ! j) (uploadsOf s b ! j) (setProgress i p (uploadProgress s) ! j)"
    if "j < length names" for j p
    using assms(1) that q
    by (cases "j = i") (auto simp: tasks_ok_def setProgress_update)
  with assms(1) show ?thesis
    by (auto simp: tasks_ok_def onProgress_def setProgress_update split: option.splits)
qed

lemma tasks_ok_PutFulfilled:
  assumes "tasks_ok names b s" and "in_flight (uploadsOf s b) i"
  shows "tasks_ok names b (fire (PutFulfilled b i) s)"
proof -
  from in_flight_nth [OF assms(2)] obtain q where i: "i < length (uploadsOf s b)"
    and q: "uploadsOf s b ! i = Pending (Some q)" by blast
  from assms(1) have b: "b < length (batches s)" by (simp add: tasks_ok_def)
  from assms(1) i q have "fileName (uploadProgress s ! i) = names ! i"
    by (auto simp: tasks_ok_def)
  then have "(uploadProgress s ! i)\<lparr>isUploading := False, progress := 100\<rparr> = completed (names ! i)"
    by (rule completed_eq)
  with assms(1) i b show ?thesis
    by (auto simp: tasks_ok_def markCompleted_update nth_list_update uploadsOf_settle)
qed

lemma tasks_ok_PutRejected:
  assumes "tasks_ok names b s" and "pending (uploadsOf s b) i"
  shows "tasks_ok names b (fire (PutRejected b i) s)"
proof -
  from pending_nth [OF assms(2)] obtain q where i: "i < length (uploadsOf s b)"
    and q: "uploadsOf s b ! i = Pending q" by blast
  from assms(1) have b: "b < length (batches s)" by (simp add: tasks_ok_def)
  from assms(1) i q have "fileName (uploadProgress s ! i) = names ! i"
    by (auto simp: tasks_ok_def)
  then have "(uploadProgress s ! i)\<lparr>isUploading := False, progress := 0\<rparr> = failed (names ! i)"
    by (rule failed_eq)
  with assms(1) i b show ?thesis
    by (auto simp: tasks_ok_def markFailed_update nth_list_update uploadsOf_settle)
qed

lemma tasks_ok_step:
  assumes "tasks_ok names b s" and "quiet b e"
  shows "tasks_ok names b (step e s)"
proof (cases "enabled s e")
  case False
  with assms show ?thesis by (simp add: step_def)
next
  case True
  show ?thesis
  proof (cases e)
    case (Select fs now)
    with assms show ?thesis by simp
  next
    case (SetFolder folder)
    with assms show ?thesis
      by (simp add: step_def tasks_ok_def setSelectedFolder_def uploadsOf_def)
  next
    case Refresh
    with assms show ?thesis by (simp add: step_def tasks_ok_def refresh_def)
  next
    case (OnProgress c i t T)
    with assms(2) have "c = b" by simp
    with OnProgress True assms tasks_ok_OnProgress [of names b s i t T] show ?thesis
      by (simp add: step_def)
  next
    case (PutFulfilled c i)
    with assms(2) have "c = b" by simp
    with PutFulfilled True assms tasks_ok_PutFulfilled [of names b s i] show ?thesis
      by (simp add: step_def del: fire.simps)
  next
    case (PutRejected c i)
    with assms(2) have "c = b" by simp
    with PutRejected True assms tasks_ok_PutRejected [of names b s i] show ?thesis
      by (simp add: step_def del: fire.simps)
  next
    case (ListFulfilled k items)
    with True assms show ?thesis by (simp add: step_def tasks_ok_def)
  next
    case (ListRejected k)
    with True assms show ?thesis by (simp add: step_def tasks_ok_def)
  next
    case Timeout
    with assms show ?thesis by simp
  qed
qed

lemma tasks_ok_run:
  "tasks_ok names b s \<Longrightarrow> \<forall>e \<in> set evs. quiet b e \<Longrightarrow> tasks_ok names b (run evs s)"
  by (induction evs arbitrary: s) (auto simp: tasks_ok_step)





subsection \<open>Batches to compute with\<close>

lemma example_batch:
  "handleFileSelect (Some [''a.txt'', ''b.txt'']) (\<lambda>i. 1700000000000)
     (initialState (Some ''u1'')) =
   \<lparr>files = [],
    uploadProgress = [\<lparr>fileName = ''a.txt'', progress = 0, isUploading = True\<rparr>,
                      \<lparr>fileName = ''b.txt'', progress = 0, isUploading = True\<rparr>],
    loading = False, error = None, selectedFolder = [], identityId = Some ''u1'',
    batches = [\<lparr>uploads = [Pending (Some ''user-files/u1/1700000000000-a.txt''),
                          Pending (Some ''user-files/u1/1700000000000-b.txt'')],
                batchSettled = False, capturedFolder = []\<rparr>],
    putLog = [''user-files/u1/1700000000000-a.txt'', ''user-files/u1/1700000000000-b.txt''],
    listings = [], listLog = [], timers = 0\<rparr>"
  by (simp add: handleFileSelect_def initialState_def map_indexed_def destinationPath_def
      resolvePath_def folderPath_def uploadName_def decimal.simps digit_of_def Let_def
      promiseAll_then_def issued_def uploadsOf_def)

lemma example_batch_unauthenticated:
  "handleFileSelect (Some [''a.txt'', ''b.txt'']) (\<lambda>i. 1700000000000) (initialState None) =
   \<lparr>files = [],
    uploadProgress = [\<lparr>fileName = ''a.txt'', progress = 0, isUploading = True\<rparr>,
                      \<lparr>fileName = ''b.txt'', progress = 0, isUploading = True\<rparr>],
    loading = False, error = None, selectedFolder = [], identityId = None,
    batches = [\<lparr>uploads = [Pending None, Pending None], batchSettled = False,
                capturedFolder = []\<rparr>],
    putLog = [], listings = [], listLog = [], timers = 0\<rparr>"
  by (simp add: handleFileSelect_def initialState_def map_indexed_def destinationPath_def
      resolvePath_def Let_def promiseAll_then_def issued_def uploadsOf_def)

lemmas run_simps = step_def pending_def in_flight_def markFailed_update markCompleted_update
  promiseAll_then_def promiseAll_catch_def loadFiles_def resolvePath_def issued_def Let_def
  settle_def uploadsOf_def

subsection \<open>A batch in which some puts fail\<close>

lemma first_rejection:
  assumes "batch_ok n folder ident b s"
    and "Rejected \<notin> set (uploadsOf s b)" and "pending (uploadsOf s b) i"
  shows "batchSettled (batches (step (PutRejected b i) s) ! b)"
    and "error (step (PutRejected b i) s) = Some ''Some files failed to upload''"
    and "uploadsOf (step (PutRejected b i) s) b = (uploadsOf s b)[i := Rejected]"
    and "\<forall>j. j \<noteq> i \<longrightarrow> pending (uploadsOf (step (PutRejected b i) s) b) j
           = pending (uploadsOf s b) j"
proof -
  from assms(1) have b: "b < length (batches s)" and st: "settle_ok (batches s ! b)"
    by (simp_all add: batch_ok_def)
  from pending_nth [OF assms(3)] obtain q where i: "i < length (uploadsOf s b)"
    and q: "uploadsOf s b ! i = Pending q" by blast
  from st assms(2) pending_not_all_fulfilled [OF i q] have nb: "\<not> batchSettled (batches s ! b)"
    by (simp add: settle_ok_def uploadsOf_def)
  from b assms(3) have en: "enabled s (PutRejected b i)" by simp
  from en b show "batchSettled (batches (step (PutRejected b i) s) ! b)"
    by (simp add: step_def batch_PutRejected del: fire.simps)
  from en nb show "error (step (PutRejected b i) s) = Some ''Some files failed to upload''"
    by (simp add: step_def promiseAll_catch_def)
  from en b show u: "uploadsOf (step (PutRejected b i) s) b = (uploadsOf s b)[i := Rejected]"
    by (simp add: step_def uploadsOf_settle)
  show "\<forall>j. j \<noteq> i \<longrightarrow> pending (uploadsOf (step (PutRejected b i) s) b) j
           = pending (uploadsOf s b) j"
    by (simp add: u pending_update)
qed




subsection \<open>After the batch: refresh and clearing\<close>









subsection \<open>A batch without identity\<close>

lemma unresolved_path:
  "ident = None \<or> ident = Some [] \<Longrightarrow> resolvePath ident rest = None"
  by (auto simp: resolvePath_def)

lemma unsent_submit:
  assumes "identityId s = None \<or> identityId s = Some []"
  shows "uploadsOf (handleFileSelect (Some names) now s) (length (batches s)) =
           replicate (length names) (Pending None)"
  using assms
  by (intro nth_equalityI)
     (simp_all add: uploads_submit map_indexed_nth destinationPath_def unresolved_path)

lemma issued_unsent: "\<forall>p \<in> set ps. p = Pending None \<or> p = Rejected \<Longrightarrow> issued ps = []"
  by (induction ps) (auto simp: issued_def)

lemma unsent_not_in_flight:
  assumes "\<forall>p \<in> set ps. p = Pending None \<or> p = Rejected"
  shows "\<not> in_flight ps i"
  using assms in_flight_nth [of ps i]
  by (metis nth_mem option.distinct(1) promise.distinct(3) promise.inject)

lemma unsent_step:
  assumes "b < length (batches s)"
    and "\<forall>p \<in> set (uploadsOf s b). p = Pending None \<or> p = Rejected"
  shows "\<forall>p \<in> set (uploadsOf (step e s) b). p = Pending None \<or> p = Rejected"
proof (cases "enabled s e")
  case False
  with assms show ?thesis by (simp add: step_def)
next
  case True
  consider i where "e = PutFulfilled b i" | i where "e = PutRejected b i"
    | "(\<forall>i. e \<noteq> PutFulfilled b i) \<and> (\<forall>i. e \<noteq> PutRejected b i)"
    by blast
  then show ?thesis
  proof cases
    case 1
    with True unsent_not_in_flight [OF assms(2), of i] show ?thesis by simp
  next
    case 2
    have "set ((uploadsOf s b)[i := Rejected]) \<subseteq> insert Rejected (set (uploadsOf s b))"
      by (rule set_update_subset_insert)
    with assms True show ?thesis
      by (auto simp: 2 step_def uploadsOf_settle)
  next
    case 3
    with assms(1) have "batches (fire e s) ! b = batches s ! b"
      by (simp add: batch_other_event)
    with assms(2) True show ?thesis by (simp add: step_def uploadsOf_def)
  qed
qed

lemma unsent_run:
  "b < length (batches s) \<Longrightarrow>
   \<forall>p \<in> set (uploadsOf s b). p = Pending None \<or> p = Rejected \<Longrightarrow>
   \<forall>p \<in> set (uploadsOf (run evs s) b). p = Pending None \<or> p = Rejected"
proof (induction evs arbitrary: s)
  case Nil
  then show ?case by simp
next
  case (Cons e evs)
  from Cons.prems have "\<forall>p \<in> set (uploadsOf (step e s) b). p = Pending None \<or> p = Rejected"
    by (rule unsent_step)
  moreover from Cons.prems(1) length_batches_step [of s e]
  have "b < length (batches (step e s))" by simp
  ultimately show ?case using Cons.IH by simp
qed

lemma putLog_step:
  assumes "\<forall>fs now. e \<noteq> Select fs now"
  shows "putLog (step e s) = putLog s"
  using assms by (cases e) (simp_all add: step_def setSelectedFolder_def refresh_def)

lemma quiet_not_Select: "quiet b e \<Longrightarrow> \<forall>fs now. e \<noteq> Select fs now"
  by (cases e) auto

lemma putLog_run:
  "\<forall>e \<in> set evs. quiet b e \<Longrightarrow> putLog (run evs s) = putLog s"
proof (induction evs arbitrary: s)
  case Nil
  then show ?case by simp
next
  case (Cons e evs)
  then have "quiet b e" by simp
  then have "putLog (step e s) = putLog s"
    by (intro putLog_step quiet_not_Select)
  with Cons show ?case by simp
qed

text \<open>
  Claim C3, as the code has it. The identity is asked for inside the path resolver of
  each \<open>uploadData\<close> call, not once for the batch. Without identity the submission
  sends no put to the store and leaves every promise of the batch waiting for its
  rejection; whatever happens later, no put of the batch can progress or succeed.
  Each upload is rejected on its own: the first rejection settles the batch and puts
  up the error of any failed batch, \<open>Some files failed to upload\<close>, and the others
  follow one by one. The entry of a task shows \<open>isUploading = false\<close> with
  \<open>progress = 0\<close> once its rejection is delivered and shows it uploading before, as
  long as since the submission no timer has fired, no other selection was made and no
  callback of another batch has run.
\<close>

theorem unauthenticated_batch:
  assumes "identityId s = None \<or> identityId s = Some []"
    and "b = length (batches s)" and "h = handleFileSelect (Some names) now s"
    and "s1 = run evs1 h" and "s' = run evs h"
  shows "putLog h = putLog s \<and>
         uploadsOf h b = replicate (length names) (Pending None) \<and>
         \<not> enabled s1 (PutFulfilled b i) \<and> \<not> enabled s1 (OnProgress b i t T) \<and>
         (Rejected \<notin> set (uploadsOf s1 b) \<and> pending (uploadsOf s1 b) i \<longrightarrow>
            batchSettled (batches (step (PutRejected b i) s1) ! b) \<and>
            error (step (PutRejected b i) s1) = Some ''Some files failed to upload'' \<and>
            uploadsOf (step (PutRejected b i) s1) b = (uploadsOf s1 b)[i := Rejected]) \<and>
         ((\<forall>e \<in> set evs. quiet b e) \<longrightarrow>
            putLog s' = putLog s \<and>
            length (uploadProgress s') = length names \<and>
            (\<forall>j < length names.
               (uploadsOf s' b ! j = Rejected \<and> uploadProgress s' ! j = failed (names ! j)) \<or>
               (uploadsOf s' b ! j = Pending None \<and>
                fileName (uploadProgress s' ! j) = names ! j \<and>
                isUploading (uploadProgress s' ! j))))"
proof (intro conjI impI)
  have bo: "batch_ok (length names) (selectedFolder s) (identityId s) b (run xs h)" for xs
    unfolding assms(2,3) by (intro batch_ok_run batch_ok_submit)
  have u: "uploadsOf h b = replicate (length names) (Pending None)"
    unfolding assms(2,3) using assms(1) by (rule unsent_submit)
  then show "uploadsOf h b = replicate (length names) (Pending None)" .
  from u have un0: "\<forall>p \<in> set (uploadsOf h b). p = Pending None \<or> p = Rejected" by simp
  have bh: "b < length (batches h)" by (simp add: assms(2,3))
  have un: "\<forall>p \<in> set (uploadsOf (run xs h) b). p = Pending None \<or> p = Rejected" for xs
    using bh un0 by (rule unsent_run)
  show pl: "putLog h = putLog s"
    using un0 by (simp add: assms(3) putLog_submit issued_unsent flip: assms(2))
  from unsent_not_in_flight [OF un [of evs1], of i]
  show "\<not> enabled s1 (PutFulfilled b i)" and "\<not> enabled s1 (OnProgress b i t T)"
    by (simp_all add: assms(4))
  {
    assume a: "Rejected \<notin> set (uploadsOf s1 b) \<and> pending (uploadsOf s1 b) i"
    note f = first_rejection [OF bo [of evs1, folded assms(4)]]
    from a show "batchSettled (batches (step (PutRejected b i) s1) ! b)"
      by (simp add: f(1))
    from a show "error (step (PutRejected b i) s1) = Some ''Some files failed to upload''"
      by (simp add: f(2))
    from a show "uploadsOf (step (PutRejected b i) s1) b = (uploadsOf s1 b)[i := Rejected]"
      by (simp add: f(3))
  }
  {
    assume q: "\<forall>e \<in> set evs. quiet b e"
    have ok: "tasks_ok names b s'"
      unfolding assms(2,3,5) using q assms(2) by (intro tasks_ok_run tasks_ok_submit) simp
    from q pl show "putLog s' = putLog s" by (simp add: assms(5) putLog_run)
    from ok show "length (uploadProgress s') = length names" by (simp add: tasks_ok_def)
    show "\<forall>j < length names.
        (uploadsOf s' b ! j = Rejected \<and> uploadProgress s' ! j = failed (names ! j)) \<or>
        (uploadsOf s' b ! j = Pending None \<and>
         fileName (uploadProgress s' ! j) = names ! j \<and>
         isUploading (uploadProgress s' ! j))"
    proof (intro allI impI)
      fix j assume j: "j < length names"
      with ok have "uploadsOf s' b ! j \<in> set (uploadsOf s' b)" by (simp add: tasks_ok_def)
      with un [of evs] have "uploadsOf s' b ! j = Pending None \<or> uploadsOf s' b ! j = Rejected"
        by (simp add: assms(5))
      with ok j show "(uploadsOf s' b ! j = Rejected \<and>
          uploadProgress s' ! j = failed (names ! j)) \<or>
        (uploadsOf s' b ! j = Pending None \<and>
         fileName (uploadProgress s' ! j) = names ! j \<and>
         isUploading (uploadProgress s' ! j))"
        by (auto simp: tasks_ok_def)
    qed
  }
qed

theorem unauthenticated_batch_witness:
  "(let h = handleFileSelect (Some [''a.txt'', ''b.txt'']) (\<lambda>i. 1700000000000)
               (initialState None);
        s' = run [PutRejected 0 1, Refresh] h
    in putLog h = [] \<and> uploadsOf h 0 = [Pending None, Pending None] \<and>
       pending (uploadsOf h 0) 0 \<and>
       error (step (PutRejected 0 0) h) = Some ''Some files failed to upload'' \<and>
       uploadsOf (step (PutRejected 0 0) h) 0 = [Rejected, Pending None] \<and>
       uploadsOf s' 0 = [Pending None, Rejected] \<and> putLog s' = [] \<and>
       uploadProgress s' = [\<lparr>fileName = ''a.txt'', progress = 0, isUploading = True\<rparr>,
                            failed ''b.txt''])"
proof -
  let ?init = "initialState None"
  let ?h = "handleFileSelect (Some [''a.txt'', ''b.txt'']) (\<lambda>i. 1700000000000) ?init"
  let ?evs = "[PutRejected 0 1, Refresh]"
  have i: "identityId ?init = None \<or> identityId ?init = Some []"
    by (simp add: initialState_def)
  have b: "0 = length (batches ?init)" by (simp add: initialState_def)
  have q: "\<forall>e \<in> set ?evs. quiet 0 e" by simp
  have v: "uploadsOf (run ?evs ?h) 0 = [Pending None, Rejected]"
    "uploadProgress (run ?evs ?h) =
       [\<lparr>fileName = ''a.txt'', progress = 0, isUploading = True\<rparr>, failed ''b.txt'']"
    by (simp_all add: example_batch_unauthenticated run_simps refresh_def failed_def)
  have first: "Rejected \<notin> set (uploadsOf ?h 0) \<and> pending (uploadsOf ?h 0) 0"
    by (simp add: example_batch_unauthenticated run_simps)
  note t = unauthenticated_batch [OF i b refl refl refl,
      where names = "[''a.txt'', ''b.txt'']" and now = "\<lambda>i. 1700000000000"
        and ?evs1.0 = "[]" and evs = ?evs and i = 0 and t = 0 and T = None]
  from t have p: "putLog ?h = putLog ?init"
    and u: "uploadsOf ?h 0 = replicate (length [''a.txt'', ''b.txt'']) (Pending None)"
    by blast+
  from t first have e: "error (step (PutRejected 0 0) ?h) = Some ''Some files failed to upload''"
    and r: "uploadsOf (step (PutRejected 0 0) ?h) 0 = (uploadsOf ?h 0)[0 := Rejected]"
    by simp_all
  from t q have l: "putLog (run ?evs ?h) = putLog ?init" by blast
  from p have p': "putLog ?h = []" by (simp add: initialState_def)
  from l have l': "putLog (run ?evs ?h) = []" by (simp add: initialState_def)
  from u have u': "uploadsOf ?h 0 = [Pending None, Pending None]" by (simp add: numeral_2_eq_2)
  from r have r': "uploadsOf (step (PutRejected 0 0) ?h) 0 = [Rejected, Pending None]"
    unfolding u' by simp
  show ?thesis
    unfolding Let_def v p' l' u' r' e by (simp add: pending_def)
qed

text \<open>
  Claim C3 as stated fails: without identity the submission raises no error and shows
  both tasks as uploading; the first rejection fails one task alone, leaves the other
  pending, and puts up the text of any failed upload rather than an error of its own.
\<close>

theorem missing_identity_fails_per_file:
  "(let h = handleFileSelect (Some [''a.txt'', ''b.txt'']) (\<lambda>i. 1700000000000)
               (initialState None);
        s1 = run [PutRejected 0 0] h
    in error h = None \<and> \<not> batchSettled (batches h ! 0) \<and>
       uploadProgress h = [\<lparr>fileName = ''a.txt'', progress = 0, isUploading = True\<rparr>,
                           \<lparr>fileName = ''b.txt'', progress = 0, isUploading = True\<rparr>] \<and>
       uploadsOf s1 0 = [Rejected, Pending None] \<and>
       uploadProgress s1 = [\<lparr>fileName = ''a.txt'', progress = 0, isUploading = False\<rparr>,
                            \<lparr>fileName = ''b.txt'', progress = 0, isUploading = True\<rparr>] \<and>
       error s1 = Some ''Some files failed to upload'' \<and>
       error s1 \<noteq> Some ''User not authenticated'' \<and> putLog s1 = [])"
  by (simp add: example_batch_unauthenticated run_simps)

subsection \<open>What holds while the progress list is left to one batch\<close>

lemma put_failure_step:
  assumes "b < length (batches s)" and "pending (uploadsOf s b) i"
  shows "uploadsOf (step (PutRejected b i) s) b = (uploadsOf s b)[i := Rejected] \<and>
    length (uploadProgress (step (PutRejected b i) s)) = length (uploadProgress s) \<and>
    (i < length (uploadProgress s) \<longrightarrow>
       uploadProgress (step (PutRejected b i) s) ! i =
         (uploadProgress s ! i)\<lparr>isUploading := False, progress := 0\<rparr>) \<and>
    (\<forall>j. j \<noteq> i \<longrightarrow>
       uploadProgress (step (PutRejected b i) s) ! j = uploadProgress s ! j \<and>
       uploadsOf (step (PutRejected b i) s) b ! j = uploadsOf s b ! j \<and>
       enabled (step (PutRejected b i) s) (PutFulfilled b j) = enabled s (PutFulfilled b j) \<and>
       enabled (step (PutRejected b i) s) (PutRejected b j) = enabled s (PutRejected b j))"
  using assms
  by (simp add: step_def markFailed_update pending_update uploadsOf_settle)

lemma all_puts_succeed_quiet:
  assumes "\<forall>e \<in> set evs. quiet (length (batches s)) e"
    and "s' = run evs (handleFileSelect (Some names) now s)"
    and "\<forall>p \<in> set (uploadsOf s' (length (batches s))). p = Fulfilled"
  shows "uploadProgress s' =
           map (\<lambda>name. \<lparr>fileName = name, progress = 100, isUploading = False\<rparr>) names"
proof -
  let ?b = "length (batches s)"
  have ok: "tasks_ok names ?b s'"
    unfolding assms(2) using assms(1) by (intro tasks_ok_run tasks_ok_submit)
  have "uploadProgress s' ! i = completed (names ! i)" if "i < length names" for i
  proof -
    from ok that have "uploadsOf s' ?b ! i \<in> set (uploadsOf s' ?b)"
      by (simp add: tasks_ok_def)
    with assms(3) have "uploadsOf s' ?b ! i = Fulfilled" by blast
    with ok that show ?thesis by (auto simp: tasks_ok_def)
  qed
  with ok show ?thesis
    by (auto simp: tasks_ok_def completed_def intro: nth_equalityI)
qed

subsection \<open>The timer of an earlier batch\<close>

lemma empty_list_step:
  assumes "uploadProgress s = []" and "upload_event e"
  shows "uploadProgress (step e s) = []"
proof (cases e)
  case (OnProgress b i t T)
  with assms show ?thesis
    by (simp add: step_def onProgress_def setProgress_update split: option.splits)
next
  case (PutFulfilled b i)
  with assms show ?thesis by (simp add: step_def markCompleted_update)
next
  case (PutRejected b i)
  with assms show ?thesis by (simp add: step_def markFailed_update)
qed (use assms in \<open>simp_all add: upload_event_def\<close>)

lemma empty_list_run:
  "uploadProgress s = [] \<Longrightarrow> \<forall>e \<in> set evs. upload_event e \<Longrightarrow>
   uploadProgress (run evs s) = []"
  by (induction evs arbitrary: s) (simp_all add: empty_list_step)

lemma example_stale_timer:
  "run [Select (Some [''a.txt'']) (\<lambda>i. 1700000000000), PutFulfilled 0 0,
        Select (Some [''b.txt'', ''c.txt'']) (\<lambda>i. 1700000001000)]
     (initialState (Some ''u1'')) =
   \<lparr>files = [],
    uploadProgress = [\<lparr>fileName = ''b.txt'', progress = 0, isUploading = True\<rparr>,
                      \<lparr>fileName = ''c.txt'', progress = 0, isUploading = True\<rparr>],
    loading = True, error = None, selectedFolder = [], identityId = Some ''u1'',
    batches = [\<lparr>uploads = [Fulfilled], batchSettled = True, capturedFolder = []\<rparr>,
               \<lparr>uploads = [Pending (Some ''user-files/u1/1700000001000-b.txt''),
                          Pending (Some ''user-files/u1/1700000001000-c.txt'')],
                batchSettled = False, capturedFolder = []\<rparr>],
    putLog = [''user-files/u1/1700000000000-a.txt'', ''user-files/u1/1700000001000-b.txt'',
              ''user-files/u1/1700000001000-c.txt''],
    listings = [Pending (Some ''user-files/u1/'')], listLog = [''user-files/u1/''],
    timers = 1\<rparr>"
  by (simp add: step_def handleFileSelect_def initialState_def map_indexed_def
      destinationPath_def resolvePath_def folderPath_def uploadName_def decimal.simps
      digit_of_def Let_def promiseAll_then_def issued_def uploadsOf_def settle_def
      in_flight_def markCompleted_update loadFiles_def)

text \<open>
  Claim C5. The timer that a batch starts on success is never cancelled, and the
  callbacks that mark a task write to whatever list is there. Once a timer has fired,
  the progress list is empty and stays empty under every callback of every put: the
  puts of a batch submitted before the timer fired can all succeed without any entry
  showing it.
\<close>

theorem cleared_list_stays_empty:
  assumes "0 < timers s" and "\<forall>e \<in> set evs. upload_event e"
  shows "uploadProgress (run evs (step Timeout s)) = []"
  using assms by (intro empty_list_run) (simp_all add: step_def)

theorem cleared_list_stays_empty_witness:
  "(let s = run [Select (Some [''a.txt'']) (\<lambda>i. 1700000000000), PutFulfilled 0 0,
                 Select (Some [''b.txt'', ''c.txt'']) (\<lambda>i. 1700000001000)]
              (initialState (Some ''u1''));
        s' = run [PutFulfilled 1 0, PutFulfilled 1 1] (step Timeout s)
    in timers s = 1 \<and>
       uploadProgress s = [\<lparr>fileName = ''b.txt'', progress = 0, isUploading = True\<rparr>,
                           \<lparr>fileName = ''c.txt'', progress = 0, isUploading = True\<rparr>] \<and>
       uploadsOf s' 1 = [Fulfilled, Fulfilled] \<and> uploadProgress s' = [])"
proof -
  let ?pre = "run [Select (Some [''a.txt'']) (\<lambda>i. 1700000000000), PutFulfilled 0 0,
                 Select (Some [''b.txt'', ''c.txt'']) (\<lambda>i. 1700000001000)]
              (initialState (Some ''u1''))"
  let ?evs = "[PutFulfilled 1 0, PutFulfilled 1 1]"
  have t: "0 < timers ?pre" by (simp only: example_stale_timer) simp
  have e: "\<forall>e \<in> set ?evs. upload_event e" by (simp add: upload_event_def)
  have u: "uploadsOf (run ?evs (step Timeout ?pre)) 1 = [Fulfilled, Fulfilled]"
    by (simp only: example_stale_timer) (simp add: run_simps)
  from cleared_list_stays_empty [OF t e]
  have p: "uploadProgress (run ?evs (step Timeout ?pre)) = []" .
  show ?thesis
    unfolding Let_def u p by (simp only: example_stale_timer) simp
qed

text \<open>
  Claim C6. The \<open>catch\<close> of a task marks the entry at the index of the task in
  whatever list is there. When a timer has fired while the put was pending, the put
  that fails is rejected and the list stays empty: no entry shows the failure.
\<close>

theorem failed_put_after_clearing:
  assumes "0 < timers s" and "b < length (batches s)" and "pending (uploadsOf s b) i"
  shows "uploadsOf (step (PutRejected b i) (step Timeout s)) b ! i = Rejected \<and>
         uploadProgress (step (PutRejected b i) (step Timeout s)) = []"
proof -
  let ?t = "step Timeout s"
  from assms(1) have t: "?t = s\<lparr>uploadProgress := [], timers := timers s - 1\<rparr>"
    by (simp add: step_def)
  from assms(2,3) have b: "b < length (batches ?t)" and p: "pending (uploadsOf ?t b) i"
    by (simp_all add: t uploadsOf_def)
  from pending_nth [OF p] have i: "i < length (uploadsOf ?t b)" by blast
  from put_failure_step [OF b p] i
  have "uploadsOf (step (PutRejected b i) ?t) b ! i = Rejected" by simp
  moreover have "uploadProgress ?t = []" by (simp add: t)
  then have "uploadProgress (step (PutRejected b i) ?t) = []"
    by (rule empty_list_step) (simp add: upload_event_def)
  ultimately show ?thesis by simp
qed

theorem failed_put_after_clearing_witness:
  "(let s = run [Select (Some [''a.txt'']) (\<lambda>i. 1700000000000), PutFulfilled 0 0,
                 Select (Some [''b.txt'', ''c.txt'']) (\<lambda>i. 1700000001000)]
              (initialState (Some ''u1''));
        s' = step (PutRejected 1 0) (step Timeout s)
    in timers s = 1 \<and> pending (uploadsOf s 1) 0 \<and>
       uploadsOf s' 1 = [Rejected, Pending (Some ''user-files/u1/1700000001000-c.txt'')] \<and>
       uploadProgress s' = [])"
proof -
  let ?pre = "run [Select (Some [''a.txt'']) (\<lambda>i. 1700000000000), PutFulfilled 0 0,
                 Select (Some [''b.txt'', ''c.txt'']) (\<lambda>i. 1700000001000)]
              (initialState (Some ''u1''))"
  have t: "0 < timers ?pre" and b: "1 < length (batches ?pre)"
    and p: "pending (uploadsOf ?pre 1) 0"
    by (simp_all only: example_stale_timer) (simp_all add: pending_def uploadsOf_def)
  have u: "uploadsOf (step (PutRejected 1 0) (step Timeout ?pre)) 1 =
      [Rejected, Pending (Some ''user-files/u1/1700000001000-c.txt'')]"
    by (simp only: example_stale_timer) (simp add: run_simps)
  from failed_put_after_clearing [OF t b p]
  have e: "uploadProgress (step (PutRejected 1 0) (step Timeout ?pre)) = []" by simp
  show ?thesis
    unfolding Let_def u e using p by (simp only: example_stale_timer) simp
qed

text \<open>
  The same index through another batch: while a first batch is still uploading, a
  second selection replaces the list, and the failure of the first batch's put then
  marks the second batch's entry as failed although that put is still pending.
\<close>

lemma earlier_batch_marks_later_entry:
  "(let s' = run [Select (Some [''a.txt'']) (\<lambda>i. 1700000000000),
                  Select (Some [''b.txt'']) (\<lambda>i. 1700000001000),
                  PutRejected 0 0]
               (initialState (Some ''u1''))
    in uploadsOf s' 0 = [Rejected] \<and>
       uploadsOf s' 1 = [Pending (Some ''user-files/u1/1700000001000-b.txt'')] \<and>
       uploadProgress s' = [\<lparr>fileName = ''b.txt'', progress = 0, isUploading = False\<rparr>])"
  by (simp add: step_def handleFileSelect_def initialState_def map_indexed_def
      destinationPath_def resolvePath_def folderPath_def uploadName_def decimal.simps
      digit_of_def Let_def promiseAll_then_def promiseAll_catch_def issued_def uploadsOf_def
      settle_def pending_def markFailed_update)

subsection \<open>Destination paths\<close>

lemma digit_of_inj:
  assumes "a < 10" and "b < 10" and "digit_of a = digit_of b"
  shows "a = b"
proof -
  have d: "distinct ''0123456789''" by simp
  have l: "length ''0123456789'' = 10" by simp
  from assms l have "a < length ''0123456789''" "b < length ''0123456789''" by simp_all
  with d assms(3) show ?thesis
    unfolding digit_of_def by (simp only: nth_eq_iff_index_eq)
qed

lemma digit_of_mem: "a < 10 \<Longrightarrow> digit_of a \<in> set ''0123456789''"
proof -
  assume "a < 10"
  then have "a < length ''0123456789''" by simp
  then show ?thesis unfolding digit_of_def by (rule nth_mem)
qed

lemma decimal_digits: "set (decimal n) \<subseteq> set ''0123456789''"
proof (induction n rule: decimal.induct)
  case (1 n)
  show ?case
  proof (cases "n < 10")
    case True
    then show ?thesis
      using digit_of_mem [of n] by (subst decimal.simps) simp
  next
    case False
    have "n mod 10 < 10" by simp
    with False 1 digit_of_mem [of "n mod 10"] show ?thesis
      by (subst decimal.simps) simp
  qed
qed

lemma decimal_no_dash: "CHR ''-'' \<notin> set (decimal n)"
  using decimal_digits [of n] by auto

lemma decimal_nonempty: "decimal n \<noteq> []"
  by (subst decimal.simps) simp

lemma decimal_inj: "decimal m = decimal n \<Longrightarrow> m = n"
proof (induction m arbitrary: n rule: decimal.induct)
  case (1 m)
  show ?case
  proof (cases "m < 10")
    case m: True
    show ?thesis
    proof (cases "n < 10")
      case True
      with m "1.prems" show ?thesis
        by (simp add: decimal.simps [of m] decimal.simps [of n] digit_of_inj)
    next
      case False
      with m "1.prems" decimal_nonempty [of "n div 10"] show ?thesis
        by (simp add: decimal.simps [of m] decimal.simps [of n])
    qed
  next
    case m: False
    show ?thesis
    proof (cases "n < 10")
      case True
      with m "1.prems" decimal_nonempty [of "m div 10"] show ?thesis
        by (simp add: decimal.simps [of m] decimal.simps [of n])
    next
      case False
      with m "1.prems" have eq: "decimal (m div 10) = decimal (n div 10)"
        and d: "digit_of (m mod 10) = digit_of (n mod 10)"
        by (simp_all add: decimal.simps [of m] decimal.simps [of n])
      from "1.IH" [OF m eq] have "m div 10 = n div 10" .
      moreover from d have "m mod 10 = n mod 10"
        by (intro digit_of_inj) simp_all
      ultimately show ?thesis
        by (metis div_mult_mod_eq)
    qed
  qed
qed

lemma split_at_first:
  assumes "x \<notin> set xs" and "x \<notin> set xs'" and "xs @ x # ys = xs' @ x # ys'"
  shows "xs = xs' \<and> ys = ys'"
  using assms
proof (induction xs arbitrary: xs')
  case Nil
  then show ?case by (cases xs') auto
next
  case (Cons a xs)
  then show ?case by (cases xs') auto
qed

lemma uploadName_eq_iff:
  "uploadName t1 n1 = uploadName t2 n2 \<longleftrightarrow> t1 = t2 \<and> n1 = n2"
proof -
  have "decimal t1 = decimal t2 \<and> n1 = n2"
    if "decimal t1 @ CHR ''-'' # n1 = decimal t2 @ CHR ''-'' # n2"
    using decimal_no_dash decimal_no_dash that by (rule split_at_first)
  then show ?thesis
    by (auto simp: uploadName_def dest: decimal_inj)
qed

lemma destinationPath_eq_iff:
  assumes "destinationPath ident folder t1 n1 \<noteq> None"
  shows "destinationPath ident folder t1 n1 = destinationPath ident folder t2 n2
           \<longleftrightarrow> t1 = t2 \<and> n1 = n2"
  using assms
  by (auto simp: destinationPath_def resolvePath_def uploadName_eq_iff split: option.splits if_splits)

text \<open>
  Claim C2. Within a batch the destination paths differ only by
  \<open>Date.now() + '-' + file.name\<close>. Two tasks of a batch get one and the same path
  whenever their files have the same name and the two tasks read the same clock value;
  all tasks of a batch read the clock in the same synchronous pass over the files.
\<close>

theorem same_name_same_path:
  assumes "i < length names" and "j < length names"
    and "names ! i = names ! j" and "now i = now j"
  shows "uploadsOf (handleFileSelect (Some names) now s) (length (batches s)) ! i =
         uploadsOf (handleFileSelect (Some names) now s) (length (batches s)) ! j"
  using assms by (simp add: uploads_submit_nth)

theorem same_name_same_path_witness:
  "(let h = handleFileSelect (Some [''a.txt'', ''a.txt'']) (\<lambda>i. 1700000000000)
               (initialState (Some ''u1''))
    in uploadsOf h 0 ! 0 = Pending (Some ''user-files/u1/1700000000000-a.txt'') \<and>
       uploadsOf h 0 ! 1 = Pending (Some ''user-files/u1/1700000000000-a.txt'') \<and>
       putLog h = [''user-files/u1/1700000000000-a.txt'',
                   ''user-files/u1/1700000000000-a.txt''] \<and>
       \<not> distinct (putLog h))"
proof -
  let ?init = "initialState (Some ''u1'')"
  let ?batch = "handleFileSelect (Some [''a.txt'', ''a.txt'']) (\<lambda>i. 1700000000000) ?init"
  have l: "length (batches ?init) = 0" by (simp add: initialState_def)
  have a: "uploadsOf ?batch 0 ! 0 = Pending (Some ''user-files/u1/1700000000000-a.txt'')"
    using uploads_submit_nth [of 0 "[''a.txt'', ''a.txt'']" "\<lambda>i. 1700000000000" ?init]
    unfolding l
    by (simp add: destinationPath_def resolvePath_def folderPath_def
        uploadName_def decimal.simps digit_of_def initialState_def)
  have p: "putLog ?batch = [''user-files/u1/1700000000000-a.txt'',
                    ''user-files/u1/1700000000000-a.txt'']"
    by (simp add: handleFileSelect_def initialState_def map_indexed_def destinationPath_def
        resolvePath_def folderPath_def uploadName_def decimal.simps digit_of_def Let_def
        issued_def)
  from same_name_same_path [of 0 "[''a.txt'', ''a.txt'']" 1 "\<lambda>i. 1700000000000" ?init]
  have "uploadsOf ?batch 0 ! 0 = uploadsOf ?batch 0 ! 1" unfolding l by simp
  with a have b: "uploadsOf ?batch 0 ! 1 = Pending (Some ''user-files/u1/1700000000000-a.txt'')"
    by simp
  show ?thesis
    unfolding Let_def a b p by simp
qed

text \<open>
  What the time stamp does achieve: two tasks of a batch whose paths resolve share a
  path only in that case, so files with different names, or tasks that read different
  clock values, never collide.
\<close>

lemma batch_paths_collide_iff:
  assumes "i < length names" and "j < length names"
    and "uploadsOf (handleFileSelect (Some names) now s) (length (batches s)) ! i \<noteq> Pending None"
  shows "uploadsOf (handleFileSelect (Some names) now s) (length (batches s)) ! i =
         uploadsOf (handleFileSelect (Some names) now s) (length (batches s)) ! j
           \<longleftrightarrow> now i = now j \<and> names ! i = names ! j"
  using assms by (simp add: uploads_submit_nth destinationPath_eq_iff)

subsection \<open>Changing the folder\<close>

lemma same_uploads_step:
  assumes "same_uploads s t" and "upload_event e"
  shows "same_uploads (step e s) (step e t)"
proof (cases e)
  case (OnProgress b i p T)
  with assms show ?thesis by (simp add: step_def same_uploads_def uploadsOf_def)
next
  case (PutFulfilled b i)
  with assms show ?thesis
    by (simp add: step_def same_uploads_def promiseAll_then_def settle_def uploadsOf_def)
next
  case (PutRejected b i)
  with assms show ?thesis
    by (simp add: step_def same_uploads_def promiseAll_catch_def settle_def uploadsOf_def)
qed (use assms in \<open>simp_all add: upload_event_def\<close>)

lemma same_uploads_run:
  "same_uploads s t \<Longrightarrow> \<forall>e \<in> set evs. upload_event e \<Longrightarrow>
   same_uploads (run evs s) (run evs t)"
  by (induction evs arbitrary: s t) (simp_all add: same_uploads_step)

lemma same_uploads_setSelectedFolder: "same_uploads (setSelectedFolder folder s) s"
  by (simp add: same_uploads_def setSelectedFolder_def)

lemma putLog_upload_events:
  "\<forall>e \<in> set evs. upload_event e \<Longrightarrow> putLog (run evs s) = putLog s"
proof (induction evs arbitrary: s)
  case Nil
  then show ?case by simp
next
  case (Cons e evs)
  then have "upload_event e" by simp
  then have "\<forall>fs now. e \<noteq> Select fs now" by (auto simp: upload_event_def)
  then have "putLog (step e s) = putLog s" by (rule putLog_step)
  with Cons show ?case by simp
qed

text \<open>
  Claim C8, as the code has it. \<open>setSelectedFolder\<close> with a folder other than the
  current one replaces the folder and calls \<open>loadFiles\<close> for the new one; with the
  current folder it does nothing at all, so no refresh follows. In both cases the
  uploads in flight are untouched: the batches, with their promises, the paths fixed
  at submission and the folder each one closed over, the entries and the log of puts
  are as before, and any later delivery of upload events leads to the same batches,
  entries and puts as without the call.
\<close>

theorem setSelectedFolder_frame:
  "(folder \<noteq> selectedFolder s \<longrightarrow>
      selectedFolder (setSelectedFolder folder s) = folder \<and>
      listings (setSelectedFolder folder s) =
        listings s @ [Pending (resolvePath (identityId s) folder)] \<and>
      listLog (setSelectedFolder folder s) =
        listLog s @ (case resolvePath (identityId s) folder of None \<Rightarrow> [] | Some p \<Rightarrow> [p])) \<and>
   (folder = selectedFolder s \<longrightarrow> setSelectedFolder folder s = s) \<and>
   batches (setSelectedFolder folder s) = batches s \<and>
   uploadsOf (setSelectedFolder folder s) b = uploadsOf s b \<and>
   capturedFolder (batches (setSelectedFolder folder s) ! b) = capturedFolder (batches s ! b) \<and>
   uploadProgress (setSelectedFolder folder s) = uploadProgress s \<and>
   putLog (setSelectedFolder folder s) = putLog s \<and>
   ((\<forall>e \<in> set evs. upload_event e) \<longrightarrow>
      batches (run evs (setSelectedFolder folder s)) = batches (run evs s) \<and>
      uploadsOf (run evs (setSelectedFolder folder s)) b = uploadsOf (run evs s) b \<and>
      uploadProgress (run evs (setSelectedFolder folder s)) = uploadProgress (run evs s) \<and>
      putLog (run evs (setSelectedFolder folder s)) = putLog s)"
proof (intro conjI impI)
  assume "folder \<noteq> selectedFolder s"
  then show "selectedFolder (setSelectedFolder folder s) = folder"
    and "listings (setSelectedFolder folder s) =
        listings s @ [Pending (resolvePath (identityId s) folder)]"
    and "listLog (setSelectedFolder folder s) =
        listLog s @ (case resolvePath (identityId s) folder of None \<Rightarrow> [] | Some p \<Rightarrow> [p])"
    by (simp_all add: setSelectedFolder_def listLog_loadFiles)
next
  assume "folder = selectedFolder s"
  then show "setSelectedFolder folder s = s" by (simp add: setSelectedFolder_def)
next
  show "batches (setSelectedFolder folder s) = batches s"
    and "uploadsOf (setSelectedFolder folder s) b = uploadsOf s b"
    and "capturedFolder (batches (setSelectedFolder folder s) ! b) = capturedFolder (batches s ! b)"
    and "uploadProgress (setSelectedFolder folder s) = uploadProgress s"
    and "putLog (setSelectedFolder folder s) = putLog s"
    by (simp_all add: setSelectedFolder_def uploadsOf_def)
next
  assume u: "\<forall>e \<in> set evs. upload_event e"
  with same_uploads_setSelectedFolder
  have r: "same_uploads (run evs (setSelectedFolder folder s)) (run evs s)"
    by (rule same_uploads_run)
  then show "batches (run evs (setSelectedFolder folder s)) = batches (run evs s)"
    and "uploadsOf (run evs (setSelectedFolder folder s)) b = uploadsOf (run evs s) b"
    and "uploadProgress (run evs (setSelectedFolder folder s)) = uploadProgress (run evs s)"
    by (simp_all add: same_uploads_def uploadsOf_def)
  from r u show "putLog (run evs (setSelectedFolder folder s)) = putLog s"
    by (simp add: same_uploads_def putLog_upload_events)
qed

theorem setSelectedFolder_frame_witness:
  "(let s0 = handleFileSelect (Some [''a.txt'', ''b.txt'']) (\<lambda>i. 1700000000000)
               (initialState (Some ''u1''));
        s1 = setSelectedFolder ''invoices'' s0;
        s2 = run [OnProgress 0 0 512 (Some 1024), PutFulfilled 0 0] s1
    in selectedFolder s1 = ''invoices'' \<and>
       listLog s1 = [''user-files/u1/invoices''] \<and>
       uploadsOf s1 0 = [Pending (Some ''user-files/u1/1700000000000-a.txt''),
                        Pending (Some ''user-files/u1/1700000000000-b.txt'')] \<and>
       uploadsOf s2 0 = [Fulfilled, Pending (Some ''user-files/u1/1700000000000-b.txt'')] \<and>
       uploadProgress s2 = [\<lparr>fileName = ''a.txt'', progress = 100, isUploading = False\<rparr>,
                            \<lparr>fileName = ''b.txt'', progress = 0, isUploading = True\<rparr>] \<and>
       putLog s2 = [''user-files/u1/1700000000000-a.txt'',
                    ''user-files/u1/1700000000000-b.txt''])"
proof -
  let ?batch = "handleFileSelect (Some [''a.txt'', ''b.txt'']) (\<lambda>i. 1700000000000)
               (initialState (Some ''u1''))"
  let ?evs = "[OnProgress 0 0 512 (Some 1024), PutFulfilled 0 0]"
  have n: "''invoices'' \<noteq> selectedFolder ?batch" by (simp add: example_batch)
  have e: "\<forall>e \<in> set ?evs. upload_event e" by (simp add: upload_event_def)
  have r: "uploadsOf (run ?evs ?batch) 0 =
        [Fulfilled, Pending (Some ''user-files/u1/1700000000000-b.txt'')]"
    "uploadProgress (run ?evs ?batch) =
        [\<lparr>fileName = ''a.txt'', progress = 100, isUploading = False\<rparr>,
         \<lparr>fileName = ''b.txt'', progress = 0, isUploading = True\<rparr>]"
    by (simp_all add: example_batch run_simps onProgress_def setProgress_update
        roundPercent_code)
  have o: "uploadsOf ?batch 0 = [Pending (Some ''user-files/u1/1700000000000-a.txt''),
                        Pending (Some ''user-files/u1/1700000000000-b.txt'')]"
    "putLog ?batch = [''user-files/u1/1700000000000-a.txt'',
                    ''user-files/u1/1700000000000-b.txt'']"
    by (simp_all add: example_batch uploadsOf_def)
  from setSelectedFolder_frame [of "''invoices''" ?batch 0 ?evs] n e
  have c: "selectedFolder (setSelectedFolder ''invoices'' ?batch) = ''invoices''"
    "listLog (setSelectedFolder ''invoices'' ?batch) =
       listLog ?batch @ (case resolvePath (identityId ?batch) ''invoices'' of
                           None \<Rightarrow> [] | Some p \<Rightarrow> [p])"
    "uploadsOf (setSelectedFolder ''invoices'' ?batch) 0 = uploadsOf ?batch 0"
    "uploadsOf (run ?evs (setSelectedFolder ''invoices'' ?batch)) 0 =
       uploadsOf (run ?evs ?batch) 0"
    "uploadProgress (run ?evs (setSelectedFolder ''invoices'' ?batch)) =
       uploadProgress (run ?evs ?batch)"
    "putLog (run ?evs (setSelectedFolder ''invoices'' ?batch)) = putLog ?batch"
    by blast+
  have l: "listLog ?batch @ (case resolvePath (identityId ?batch) ''invoices'' of
                           None \<Rightarrow> [] | Some p \<Rightarrow> [p]) = [''user-files/u1/invoices'']"
    by (simp add: example_batch resolvePath_def)
  show ?thesis
    unfolding Let_def c r l o by simp
qed

text \<open>
  Claim C8 as stated fails: after the first render has requested its listing, choosing
  the root folder again leaves the state as it is and requests no listing; the same
  holds for choosing \<open>invoices\<close> a second time.
\<close>

theorem same_folder_no_refresh:
  "(let s0 = mount (Some ''u1'');
        s1 = setSelectedFolder [] s0;
        s2 = setSelectedFolder ''invoices'' s1;
        s3 = setSelectedFolder ''invoices'' s2
    in selectedFolder s0 = [] \<and> listLog s0 = [''user-files/u1/''] \<and>
       s1 = s0 \<and> listLog s1 = [''user-files/u1/''] \<and>
       listLog s2 = [''user-files/u1/'', ''user-files/u1/invoices''] \<and>
       s3 = s2 \<and> listLog s3 = [''user-files/u1/'', ''user-files/u1/invoices''])"
  by (simp add: mount_def initialState_def setSelectedFolder_def listLog_loadFiles
      resolvePath_def Let_def)

end
